theory Spec2Isabelle
  imports Main
begin

section \<open>Data model of \<open>src/app/page.tsx\<close>\<close>

text \<open>
  \<^verbatim>\<open>type Player = "X" | "O" | null\<close>: a cell holds a mark or \<open>null\<close> (\<open>None\<close>).
  \<^verbatim>\<open>type BoardState = Player[]\<close>: a JavaScript array, here a list of any length.
\<close>

datatype mark = MarkX | MarkO

text \<open>The marks \<^verbatim>\<open>"X"\<close> and \<^verbatim>\<open>"O"\<close> are \<open>MarkX\<close> and \<open>MarkO\<close>.\<close>

type_synonym Player = "mark option"

type_synonym BoardState = "Player list"

text \<open>
  JavaScript numbers as far as the search uses them: the integer scores and the two
  infinities \<^verbatim>\<open>Number.NEGATIVE_INFINITY\<close> and \<^verbatim>\<open>Number.POSITIVE_INFINITY\<close>
  that initialise the best score and the default bounds.
\<close>

datatype number = NegInf | Num int | PosInf

instantiation number :: linorder
begin

fun less_eq_number :: "number \<Rightarrow> number \<Rightarrow> bool" where
  "less_eq_number NegInf _ = True"
| "less_eq_number (Num i) NegInf = False"
| "less_eq_number (Num i) (Num j) = (i \<le> j)"
| "less_eq_number (Num i) PosInf = True"
| "less_eq_number PosInf PosInf = True"
| "less_eq_number PosInf _ = False"

fun less_number :: "number \<Rightarrow> number \<Rightarrow> bool" where
  "less_number _ NegInf = False"
| "less_number NegInf _ = True"
| "less_number (Num i) (Num j) = (i < j)"
| "less_number (Num i) PosInf = True"
| "less_number PosInf _ = False"

instance
proof
  fix x y z :: number
  show "(x < y) = (x \<le> y \<and> \<not> y \<le> x)"
    by (cases x; cases y) auto
  show "x \<le> x"
    by (cases x) auto
  show "x \<le> y \<Longrightarrow> y \<le> z \<Longrightarrow> x \<le> z"
    by (cases x; cases y; cases z) auto
  show "x \<le> y \<Longrightarrow> y \<le> x \<Longrightarrow> x = y"
    by (cases x; cases y) auto
  show "x \<le> y \<or> y \<le> x"
    by (cases x; cases y) auto
qed

end

text \<open>The table \<^verbatim>\<open>SCORES = { X: -10, O: 10, tie: 0 }\<close>.\<close>

definition SCORES_X :: number where
  "SCORES_X = Num (- 10)"

definition SCORES_O :: number where
  "SCORES_O = Num 10"

definition SCORES_tie :: number where
  "SCORES_tie = Num 0"

text \<open>
  \<^verbatim>\<open>type TreeNode = { board; score; move?; children }\<close>. An absent \<^verbatim>\<open>move\<close>
  (\<^verbatim>\<open>undefined\<close>) is \<open>None\<close>. The fields are \<open>node_board\<close>, \<open>node_score\<close>,
  \<open>node_move\<close> and \<open>node_children\<close>.
\<close>

datatype TreeNode =
  TreeNode (node_board: BoardState) (node_score: number) (node_move: "nat option")
    (node_children: "TreeNode list")

text \<open>
  The object \<^verbatim>\<open>{ score: number; move?: number; tree?: TreeNode }\<close> that
  \<^verbatim>\<open>minimax\<close> returns.
\<close>

record result =
  r_score :: number
  r_move :: "nat option"
  r_tree :: "TreeNode option"

text \<open>The object \<^verbatim>\<open>{ winner: Player; line: number[] | null }\<close> of \<^verbatim>\<open>checkWinner\<close>.\<close>

record winner_result =
  winner :: Player
  line :: "nat list option"

section \<open>The position evaluator\<close>

text \<open>
  Reading \<^verbatim>\<open>boardState[i]\<close>: beyond the end of the array JavaScript yields
  \<^verbatim>\<open>undefined\<close>, which like \<^verbatim>\<open>null\<close> is falsy and equal to no mark; both are
  \<open>None\<close> here.
\<close>

definition cell :: "BoardState \<Rightarrow> nat \<Rightarrow> Player" where
  "cell boardState i = (if i < length boardState then boardState ! i else None)"

definition lines :: "(nat \<times> nat \<times> nat) list" where
  "lines =
    [(0, 1, 2), (3, 4, 5), (6, 7, 8),
     (0, 3, 6), (1, 4, 7), (2, 5, 8),
     (0, 4, 8), (2, 4, 6)]"

text \<open>
  The loop \<^verbatim>\<open>for (const [a, b, c] of lines)\<close> with its early \<^verbatim>\<open>return\<close>;
  \<open>None\<close> when the loop runs to its end.
\<close>

fun scan_lines :: "BoardState \<Rightarrow> (nat \<times> nat \<times> nat) list \<Rightarrow> winner_result option" where
  "scan_lines boardState [] = None"
| "scan_lines boardState ((a, b, c) # rest) =
     (if cell boardState a \<noteq> None
         \<and> cell boardState a = cell boardState b
         \<and> cell boardState a = cell boardState c
      then Some \<lparr>winner = cell boardState a, line = Some [a, b, c]\<rparr>
      else scan_lines boardState rest)"

text \<open>\<^verbatim>\<open>boardState.every((square) => square !== null)\<close>.\<close>

definition every_occupied :: "BoardState \<Rightarrow> bool" where
  "every_occupied boardState = list_all (\<lambda>square. square \<noteq> None) boardState"

definition checkWinner :: "BoardState \<Rightarrow> winner_result" where
  "checkWinner boardState =
     (case scan_lines boardState lines of
        Some found \<Rightarrow> found
      | None \<Rightarrow>
          if every_occupied boardState
          then \<lparr>winner = None, line = None\<rparr>
          else \<lparr>winner = None, line = None\<rparr>)"

section \<open>The search engine\<close>

text \<open>
  \<^verbatim>\<open>boardState.map((square, index) => square === null ? index : null).filter(...)\<close>:
  the indices of the empty cells, ascending.
\<close>

definition getAvailableMoves :: "BoardState \<Rightarrow> nat list" where
  "getAvailableMoves boardState =
     filter (\<lambda>index. boardState ! index = None) [0 ..< length boardState]"

text \<open>
  The \<^verbatim>\<open>for (const move of availableMoves)\<close> loop of the maximizing branch. Its
  variables \<^verbatim>\<open>alpha\<close>, \<^verbatim>\<open>bestScore\<close>, \<^verbatim>\<open>bestMove\<close> and
  \<^verbatim>\<open>node.children\<close> are passed from one iteration to the next; \<open>recurse\<close> is the
  recursive call \<^verbatim>\<open>minimax(newBoard, depth - 1, false, alpha, beta)\<close> as a function of
  the board and the bounds. The \<^verbatim>\<open>break\<close> ends the loop with the current values.
\<close>

fun loop_max ::
  "(BoardState \<Rightarrow> number \<Rightarrow> number \<Rightarrow> result) \<Rightarrow> BoardState \<Rightarrow> nat list \<Rightarrow>
   number \<Rightarrow> number \<Rightarrow> number \<Rightarrow> nat option \<Rightarrow> TreeNode list \<Rightarrow>
   number \<times> nat option \<times> TreeNode list" where
  "loop_max recurse boardState [] alpha beta bestScore bestMove kids =
     (bestScore, bestMove, kids)"
| "loop_max recurse boardState (move # rest) alpha beta bestScore bestMove kids =
     (let newBoard = boardState[move := Some MarkO];
          res = recurse newBoard alpha beta;
          childNode = (case r_tree res of
                         Some tree \<Rightarrow> tree
                       | None \<Rightarrow> TreeNode newBoard (r_score res) (Some move) []);
          kids' = kids @ [childNode];
          bestScore' = (if bestScore < r_score res then r_score res else bestScore);
          bestMove' = (if bestScore < r_score res then Some move else bestMove);
          alpha' = max alpha bestScore'
      in if beta \<le> alpha' then (bestScore', bestMove', kids')
         else loop_max recurse boardState rest alpha' beta bestScore' bestMove' kids')"

text \<open>The loop of the minimizing branch, which updates \<^verbatim>\<open>beta\<close>.\<close>

fun loop_min ::
  "(BoardState \<Rightarrow> number \<Rightarrow> number \<Rightarrow> result) \<Rightarrow> BoardState \<Rightarrow> nat list \<Rightarrow>
   number \<Rightarrow> number \<Rightarrow> number \<Rightarrow> nat option \<Rightarrow> TreeNode list \<Rightarrow>
   number \<times> nat option \<times> TreeNode list" where
  "loop_min recurse boardState [] alpha beta bestScore bestMove kids =
     (bestScore, bestMove, kids)"
| "loop_min recurse boardState (move # rest) alpha beta bestScore bestMove kids =
     (let newBoard = boardState[move := Some MarkX];
          res = recurse newBoard alpha beta;
          childNode = (case r_tree res of
                         Some tree \<Rightarrow> tree
                       | None \<Rightarrow> TreeNode newBoard (r_score res) (Some move) []);
          kids' = kids @ [childNode];
          bestScore' = (if r_score res < bestScore then r_score res else bestScore);
          bestMove' = (if r_score res < bestScore then Some move else bestMove);
          beta' = min beta bestScore'
      in if beta' \<le> alpha then (bestScore', bestMove', kids')
         else loop_min recurse boardState rest alpha beta' bestScore' bestMove' kids')"

text \<open>
  Both loops call \<open>recurse\<close> only on boards made by one of the moves they are given.
\<close>

lemma loop_max_cong [fundef_cong]:
  assumes "boardState = boardState'" and "moves = moves'"
    and "\<And>m a b. m \<in> set moves' \<Longrightarrow>
           f (boardState'[m := Some MarkO]) a b = g (boardState'[m := Some MarkO]) a b"
  shows "loop_max f boardState moves alpha beta bestScore bestMove kids
       = loop_max g boardState' moves' alpha beta bestScore bestMove kids"
  using assms(3) unfolding assms(1,2)
proof (induction moves' arbitrary: alpha beta bestScore bestMove kids)
  case Nil
  show ?case by simp
next
  case (Cons m ms)
  have here: "f (boardState'[m := Some MarkO]) alpha beta = g (boardState'[m := Some MarkO]) alpha beta"
    using Cons.prems by simp
  have later: "loop_max f boardState' ms a b s mv ks = loop_max g boardState' ms a b s mv ks"
    for a b s mv ks
    by (rule Cons.IH) (simp add: Cons.prems)
  show ?case
    by (simp only: loop_max.simps Let_def here later)
qed

lemma loop_min_cong [fundef_cong]:
  assumes "boardState = boardState'" and "moves = moves'"
    and "\<And>m a b. m \<in> set moves' \<Longrightarrow>
           f (boardState'[m := Some MarkX]) a b = g (boardState'[m := Some MarkX]) a b"
  shows "loop_min f boardState moves alpha beta bestScore bestMove kids
       = loop_min g boardState' moves' alpha beta bestScore bestMove kids"
  using assms(3) unfolding assms(1,2)
proof (induction moves' arbitrary: alpha beta bestScore bestMove kids)
  case Nil
  show ?case by simp
next
  case (Cons m ms)
  have here: "f (boardState'[m := Some MarkX]) alpha beta = g (boardState'[m := Some MarkX]) alpha beta"
    using Cons.prems by simp
  have later: "loop_min f boardState' ms a b s mv ks = loop_min g boardState' ms a b s mv ks"
    for a b s mv ks
    by (rule Cons.IH) (simp add: Cons.prems)
  show ?case
    by (simp only: loop_min.simps Let_def here later)
qed

text \<open>The number of empty cells: every move fills one, which bounds the recursion.\<close>

definition empties :: "BoardState \<Rightarrow> nat" where
  "empties boardState = length (filter (\<lambda>square. square = None) boardState)"

lemma getAvailableMoves_set:
  "m \<in> set (getAvailableMoves boardState) \<longleftrightarrow> m < length boardState \<and> boardState ! m = None"
  by (auto simp: getAvailableMoves_def)

lemma empties_update:
  assumes "m < length boardState" and "boardState ! m = None"
  shows "empties (boardState[m := Some p]) < empties boardState"
  using assms
proof (induction boardState arbitrary: m)
  case Nil
  then show ?case by simp
next
  case (Cons c cs)
  show ?case
  proof (cases m)
    case 0
    with Cons.prems show ?thesis by (simp add: empties_def)
  next
    case (Suc k)
    with Cons.prems have "empties (cs[k := Some p]) < empties cs"
      by (intro Cons.IH) simp_all
    with Suc show ?thesis by (simp add: empties_def)
  qed
qed

text \<open>
  \<^verbatim>\<open>minimax(boardState, depth, isMaximizing, alpha, beta)\<close>. The depth is an integer
  and is only compared with 0, so a negative depth never cuts the search off.
\<close>

function minimax :: "BoardState \<Rightarrow> int \<Rightarrow> bool \<Rightarrow> number \<Rightarrow> number \<Rightarrow> result" where
  "minimax boardState depth isMaximizing alpha beta =
     (if winner (checkWinner boardState) = Some MarkX
        then \<lparr>r_score = SCORES_X, r_move = None, r_tree = None\<rparr>
      else if winner (checkWinner boardState) = Some MarkO
        then \<lparr>r_score = SCORES_O, r_move = None, r_tree = None\<rparr>
      else if every_occupied boardState
        then \<lparr>r_score = SCORES_tie, r_move = None, r_tree = None\<rparr>
      else if depth = 0
        then \<lparr>r_score = Num 0, r_move = None, r_tree = None\<rparr>
      else if isMaximizing then
        (case loop_max (\<lambda>newBoard a b. minimax newBoard (depth - 1) False a b)
                boardState (getAvailableMoves boardState) alpha beta NegInf None [] of
           (bestScore, bestMove, kids) \<Rightarrow>
             \<lparr>r_score = bestScore, r_move = bestMove,
              r_tree = Some (TreeNode boardState bestScore bestMove kids)\<rparr>)
      else
        (case loop_min (\<lambda>newBoard a b. minimax newBoard (depth - 1) True a b)
                boardState (getAvailableMoves boardState) alpha beta PosInf None [] of
           (bestScore, bestMove, kids) \<Rightarrow>
             \<lparr>r_score = bestScore, r_move = bestMove,
              r_tree = Some (TreeNode boardState bestScore bestMove kids)\<rparr>))"
  by pat_completeness auto
termination
  by (relation "measure (\<lambda>(boardState, depth, isMaximizing, alpha, beta). empties boardState)")
     (auto simp: getAvailableMoves_set empties_update)

declare minimax.simps [simp del]

section \<open>The search with pruning disabled\<close>

text \<open>
  The reference search of the specification: the same recursion with the bounds fixed at
  \<open>NegInf\<close> and \<open>PosInf\<close> throughout. The test \<^verbatim>\<open>beta <= alpha\<close> then never holds, so
  each loop visits every available move and keeps the best score under the same strict
  comparison. Only the score is returned.
\<close>

function minimax_unpruned :: "BoardState \<Rightarrow> int \<Rightarrow> bool \<Rightarrow> number" where
  "minimax_unpruned boardState depth isMaximizing =
     (if winner (checkWinner boardState) = Some MarkX then SCORES_X
      else if winner (checkWinner boardState) = Some MarkO then SCORES_O
      else if every_occupied boardState then SCORES_tie
      else if depth = 0 then Num 0
      else if isMaximizing then
        fold (\<lambda>move bestScore.
                let score = minimax_unpruned (boardState[move := Some MarkO]) (depth - 1) False
                in if bestScore < score then score else bestScore)
             (getAvailableMoves boardState) NegInf
      else
        fold (\<lambda>move bestScore.
                let score = minimax_unpruned (boardState[move := Some MarkX]) (depth - 1) True
                in if score < bestScore then score else bestScore)
             (getAvailableMoves boardState) PosInf)"
  by pat_completeness auto
termination
  by (relation "measure (\<lambda>(boardState, depth, isMaximizing). empties boardState)")
     (auto simp: getAvailableMoves_set empties_update)

declare minimax_unpruned.simps [simp del]

section \<open>The search over an explicit store\<close>

text \<open>
  In the source a board is an array and a variable holds a reference to it. Here the
  arrays allocated so far are the list \<open>arrays\<close>, a reference is an index into it, and
  \<open>writes\<close> logs, oldest first, the reference of every array that an element assignment
  wrote into. Tree nodes and results are built once and only read afterwards, so they stay
  values; a node holds the reference of its board.
\<close>

record store =
  arrays :: "BoardState list"
  writes :: "nat list"

text \<open>\<^verbatim>\<open>[...boardState]\<close> allocates a new array with the same cells.\<close>

definition copy_array :: "store \<Rightarrow> nat \<Rightarrow> nat \<times> store" where
  "copy_array s r = (length (arrays s), s\<lparr>arrays := arrays s @ [arrays s ! r]\<rparr>)"

text \<open>\<^verbatim>\<open>newBoard[move] = v\<close> writes into the array that the reference denotes.\<close>

definition write_cell :: "store \<Rightarrow> nat \<Rightarrow> nat \<Rightarrow> Player \<Rightarrow> store" where
  "write_cell s r i v =
     s\<lparr>arrays := (arrays s)[r := (arrays s ! r)[i := v]], writes := writes s @ [r]\<rparr>"

datatype TreeNodeRef =
  TreeNodeRef (ref_board: nat) (ref_score: number) (ref_move: "nat option")
    (ref_children: "TreeNodeRef list")

record result_ref =
  s_score :: number
  s_move :: "nat option"
  s_tree :: "TreeNodeRef option"

text \<open>
  The two loops and \<open>minimax\<close> as before, now passing the store along. Each iteration
  copies the board it was given, writes the move into the copy and hands the copy to the
  recursive call; the node of a call holds another copy.
\<close>

fun loop_max_store ::
  "(store \<Rightarrow> nat \<Rightarrow> number \<Rightarrow> number \<Rightarrow> (result_ref \<times> store) option) \<Rightarrow> nat \<Rightarrow> nat list \<Rightarrow>
   store \<Rightarrow> number \<Rightarrow> number \<Rightarrow> number \<Rightarrow> nat option \<Rightarrow> TreeNodeRef list \<Rightarrow>
   ((number \<times> nat option \<times> TreeNodeRef list) \<times> store) option" where
  "loop_max_store recurse boardState [] s alpha beta bestScore bestMove kids =
     Some ((bestScore, bestMove, kids), s)"
| "loop_max_store recurse boardState (move # rest) s alpha beta bestScore bestMove kids =
     (let (newBoard, s1) = copy_array s boardState;
          s2 = write_cell s1 newBoard move (Some MarkO)
      in case recurse s2 newBoard alpha beta of
           None \<Rightarrow> None
         | Some (res, s3) \<Rightarrow>
             (let childNode = (case s_tree res of
                                 Some tree \<Rightarrow> tree
                               | None \<Rightarrow> TreeNodeRef newBoard (s_score res) (Some move) []);
                  kids' = kids @ [childNode];
                  bestScore' = (if bestScore < s_score res then s_score res else bestScore);
                  bestMove' = (if bestScore < s_score res then Some move else bestMove);
                  alpha' = max alpha bestScore'
              in if beta \<le> alpha' then Some ((bestScore', bestMove', kids'), s3)
                 else loop_max_store recurse boardState rest s3 alpha' beta
                        bestScore' bestMove' kids'))"

fun loop_min_store ::
  "(store \<Rightarrow> nat \<Rightarrow> number \<Rightarrow> number \<Rightarrow> (result_ref \<times> store) option) \<Rightarrow> nat \<Rightarrow> nat list \<Rightarrow>
   store \<Rightarrow> number \<Rightarrow> number \<Rightarrow> number \<Rightarrow> nat option \<Rightarrow> TreeNodeRef list \<Rightarrow>
   ((number \<times> nat option \<times> TreeNodeRef list) \<times> store) option" where
  "loop_min_store recurse boardState [] s alpha beta bestScore bestMove kids =
     Some ((bestScore, bestMove, kids), s)"
| "loop_min_store recurse boardState (move # rest) s alpha beta bestScore bestMove kids =
     (let (newBoard, s1) = copy_array s boardState;
          s2 = write_cell s1 newBoard move (Some MarkX)
      in case recurse s2 newBoard alpha beta of
           None \<Rightarrow> None
         | Some (res, s3) \<Rightarrow>
             (let childNode = (case s_tree res of
                                 Some tree \<Rightarrow> tree
                               | None \<Rightarrow> TreeNodeRef newBoard (s_score res) (Some move) []);
                  kids' = kids @ [childNode];
                  bestScore' = (if s_score res < bestScore then s_score res else bestScore);
                  bestMove' = (if s_score res < bestScore then Some move else bestMove);
                  beta' = min beta bestScore'
              in if beta' \<le> alpha then Some ((bestScore', bestMove', kids'), s3)
                 else loop_min_store recurse boardState rest s3 alpha beta'
                        bestScore' bestMove' kids'))"

text \<open>
  A later iteration reads the board again from the store that the earlier recursive calls
  returned, so the recursion is bounded here by \<open>fuel\<close>, one unit for each nested call;
  \<open>None\<close> means that the fuel ran out. One unit more than the number of empty cells is
  always enough, as is proved below.
\<close>

fun minimax_store ::
  "nat \<Rightarrow> store \<Rightarrow> nat \<Rightarrow> int \<Rightarrow> bool \<Rightarrow> number \<Rightarrow> number \<Rightarrow> (result_ref \<times> store) option" where
  "minimax_store 0 s boardState depth isMaximizing alpha beta = None"
| "minimax_store (Suc fuel) s boardState depth isMaximizing alpha beta =
     (if winner (checkWinner (arrays s ! boardState)) = Some MarkX
        then Some (\<lparr>s_score = SCORES_X, s_move = None, s_tree = None\<rparr>, s)
      else if winner (checkWinner (arrays s ! boardState)) = Some MarkO
        then Some (\<lparr>s_score = SCORES_O, s_move = None, s_tree = None\<rparr>, s)
      else if every_occupied (arrays s ! boardState)
        then Some (\<lparr>s_score = SCORES_tie, s_move = None, s_tree = None\<rparr>, s)
      else if depth = 0
        then Some (\<lparr>s_score = Num 0, s_move = None, s_tree = None\<rparr>, s)
      else
        (let availableMoves = getAvailableMoves (arrays s ! boardState);
             (nodeBoard, s1) = copy_array s boardState
         in if isMaximizing then
              (case loop_max_store
                      (\<lambda>st newBoard a b. minimax_store fuel st newBoard (depth - 1) False a b)
                      boardState availableMoves s1 alpha beta NegInf None [] of
                 None \<Rightarrow> None
               | Some ((bestScore, bestMove, kids), s') \<Rightarrow>
                   Some (\<lparr>s_score = bestScore, s_move = bestMove,
                          s_tree = Some (TreeNodeRef nodeBoard bestScore bestMove kids)\<rparr>, s'))
            else
              (case loop_min_store
                      (\<lambda>st newBoard a b. minimax_store fuel st newBoard (depth - 1) True a b)
                      boardState availableMoves s1 alpha beta PosInf None [] of
                 None \<Rightarrow> None
               | Some ((bestScore, bestMove, kids), s') \<Rightarrow>
                   Some (\<lparr>s_score = bestScore, s_move = bestMove,
                          s_tree = Some (TreeNodeRef nodeBoard bestScore bestMove kids)\<rparr>, s'))))"

section \<open>Boards used as examples\<close>

text \<open>
  \<open>fixture\<close> is the regression board of the specification, \<open>emptyBoard\<close> is
  \<^verbatim>\<open>Array(9).fill(null)\<close>, \<open>wonBoard\<close> has the top row of X, \<open>tiedBoard\<close> is full with
  no line, \<open>bothBoard\<close> has a line of O above a line of X, and \<open>lateBoard\<close> has two empty
  cells left with O to move.
\<close>

definition fixture :: BoardState where
  "fixture = [Some MarkO, Some MarkO, None, Some MarkX, Some MarkX, None, None, None, None]"

definition emptyBoard :: BoardState where
  "emptyBoard = replicate 9 None"

definition wonBoard :: BoardState where
  "wonBoard = [Some MarkX, Some MarkX, Some MarkX, Some MarkO, Some MarkO, None, None, None, None]"

definition tiedBoard :: BoardState where
  "tiedBoard =
     [Some MarkX, Some MarkO, Some MarkX, Some MarkX, Some MarkO, Some MarkO,
      Some MarkO, Some MarkX, Some MarkX]"

definition bothBoard :: BoardState where
  "bothBoard = [Some MarkO, Some MarkO, Some MarkO, Some MarkX, Some MarkX, Some MarkX, None, None, None]"

definition lateBoard :: BoardState where
  "lateBoard =
     [Some MarkX, Some MarkO, Some MarkX, Some MarkO, Some MarkO, Some MarkX,
      Some MarkX, None, None]"

text \<open>A store that holds \<open>lateBoard\<close> alone, at reference 0.\<close>

definition lateStore :: store where
  "lateStore = \<lparr>arrays = [lateBoard], writes = []\<rparr>"

section \<open>Notions used in the statements\<close>

text \<open>
  A line is completed when it passes the test of the loop in \<^verbatim>\<open>checkWinner\<close>; a side
  holds a line when its mark is on all three cells.
\<close>

definition completed :: "BoardState \<Rightarrow> nat \<times> nat \<times> nat \<Rightarrow> bool" where
  "completed boardState l =
     (case l of (a, b, c) \<Rightarrow>
        cell boardState a \<noteq> None
        \<and> cell boardState a = cell boardState b
        \<and> cell boardState a = cell boardState c)"

definition holds_line :: "BoardState \<Rightarrow> mark \<Rightarrow> nat \<times> nat \<times> nat \<Rightarrow> bool" where
  "holds_line boardState p l =
     (case l of (a, b, c) \<Rightarrow>
        cell boardState a = Some p \<and> cell boardState b = Some p \<and> cell boardState c = Some p)"

text \<open>
  What a search with bounds \<open>alpha < beta\<close> may return as \<open>r\<close> when the search without
  pruning returns \<open>v\<close>: the exact value inside the window, and a bound on the right side of
  \<open>v\<close> outside it.
\<close>

definition within :: "number \<Rightarrow> number \<Rightarrow> number \<Rightarrow> number \<Rightarrow> bool" where
  "within alpha beta r v \<longleftrightarrow>
     (r \<le> alpha \<longrightarrow> v \<le> r) \<and> (beta \<le> r \<longrightarrow> r \<le> v) \<and> (alpha < r \<and> r < beta \<longrightarrow> r = v)"

text \<open>
  A loop has chosen a move once its best score is a finite number and its best move is one
  of the moves \<open>M\<close>.
\<close>

definition chosen :: "nat set \<Rightarrow> number \<Rightarrow> nat option \<Rightarrow> bool" where
  "chosen M bestScore bestMove \<longleftrightarrow> (\<exists>k. bestScore = Num k) \<and> (\<exists>m\<in>M. bestMove = Some m)"

text \<open>
  Reading a tree of references in a store gives a tree of boards; a tree is valid in a
  store when all its references are allocated. A store extends another when the arrays of
  the old one are all still there, unchanged, and every write since then went into an
  array allocated since then. \<open>simulates\<close> says that a search over the store returns, on
  every board of \<open>B\<close>, what the function \<open>f\<close> on boards returns, and extends the store.
\<close>

fun tree_abs :: "store \<Rightarrow> TreeNodeRef \<Rightarrow> TreeNode" where
  "tree_abs s (TreeNodeRef r sc mv ks) = TreeNode (arrays s ! r) sc mv (map (tree_abs s) ks)"

fun tree_valid :: "store \<Rightarrow> TreeNodeRef \<Rightarrow> bool" where
  "tree_valid s (TreeNodeRef r sc mv ks) = (r < length (arrays s) \<and> list_all (tree_valid s) ks)"

definition result_abs :: "store \<Rightarrow> result_ref \<Rightarrow> result" where
  "result_abs s res =
     \<lparr>r_score = s_score res, r_move = s_move res, r_tree = map_option (tree_abs s) (s_tree res)\<rparr>"

definition extends :: "store \<Rightarrow> store \<Rightarrow> bool" where
  "extends s s' \<longleftrightarrow>
     take (length (arrays s)) (arrays s') = arrays s
     \<and> take (length (writes s)) (writes s') = writes s
     \<and> list_all (\<lambda>w. length (arrays s) \<le> w) (drop (length (writes s)) (writes s'))"


definition result_valid :: "store \<Rightarrow> result_ref \<Rightarrow> bool" where
  "result_valid s res = (case s_tree res of None \<Rightarrow> True | Some t \<Rightarrow> tree_valid s t)"

definition simulates ::
  "(store \<Rightarrow> nat \<Rightarrow> number \<Rightarrow> number \<Rightarrow> (result_ref \<times> store) option) \<Rightarrow>
   (BoardState \<Rightarrow> number \<Rightarrow> number \<Rightarrow> result) \<Rightarrow> BoardState set \<Rightarrow> bool" where
  "simulates recurse f B \<longleftrightarrow>
     (\<forall>s r a b. r < length (arrays s) \<and> arrays s ! r \<in> B \<longrightarrow>
        (\<exists>res s'. recurse s r a b = Some (res, s') \<and> extends s s' \<and> result_valid s' res
           \<and> result_abs s' res = f (arrays s ! r) a b))"

text \<open>
  The score and the move of a search, without its tree, and the same for the two loops.
  They are only projections of \<open>minimax\<close>, \<open>loop_max\<close> and \<open>loop_min\<close>; the lemmas
  below unfold them one step at a time on a concrete board.
\<close>

definition score_move ::
  "BoardState \<Rightarrow> int \<Rightarrow> bool \<Rightarrow> number \<Rightarrow> number \<Rightarrow> number \<times> nat option" where
  "score_move b d mx alpha beta =
     (r_score (minimax b d mx alpha beta), r_move (minimax b d mx alpha beta))"

definition best_of :: "number \<times> nat option \<times> TreeNode list \<Rightarrow> number \<times> nat option" where
  "best_of t = (fst t, fst (snd t))"

definition best_max ::
  "BoardState \<Rightarrow> int \<Rightarrow> nat list \<Rightarrow> number \<Rightarrow> number \<Rightarrow> number \<Rightarrow> nat option \<Rightarrow>
   number \<times> nat option" where
  "best_max b d ms alpha beta bestScore bestMove =
     best_of (loop_max (\<lambda>newBoard x y. minimax newBoard (d - 1) False x y)
                b ms alpha beta bestScore bestMove [])"

definition best_min ::
  "BoardState \<Rightarrow> int \<Rightarrow> nat list \<Rightarrow> number \<Rightarrow> number \<Rightarrow> number \<Rightarrow> nat option \<Rightarrow>
   number \<times> nat option" where
  "best_min b d ms alpha beta bestScore bestMove =
     best_of (loop_min (\<lambda>newBoard x y. minimax newBoard (d - 1) True x y)
                b ms alpha beta bestScore bestMove [])"

definition after_max ::
  "BoardState \<Rightarrow> int \<Rightarrow> nat list \<Rightarrow> number \<Rightarrow> number \<Rightarrow> number \<Rightarrow> nat option \<Rightarrow> nat \<Rightarrow>
   number \<Rightarrow> number \<times> nat option" where
  "after_max b d ms alpha beta bestScore bestMove m s =
     (if bestScore < s
      then (if beta \<le> max alpha s then (s, Some m)
            else best_max b d ms (max alpha s) beta s (Some m))
      else (if beta \<le> max alpha bestScore then (bestScore, bestMove)
            else best_max b d ms (max alpha bestScore) beta bestScore bestMove))"

definition after_min ::
  "BoardState \<Rightarrow> int \<Rightarrow> nat list \<Rightarrow> number \<Rightarrow> number \<Rightarrow> number \<Rightarrow> nat option \<Rightarrow> nat \<Rightarrow>
   number \<Rightarrow> number \<times> nat option" where
  "after_min b d ms alpha beta bestScore bestMove m s =
     (if s < bestScore
      then (if min beta s \<le> alpha then (s, Some m)
            else best_min b d ms alpha (min beta s) s (Some m))
      else (if min beta bestScore \<le> alpha then (bestScore, bestMove)
            else best_min b d ms alpha (min beta bestScore) bestScore bestMove))"

fun score_move_at ::
  "Player \<Rightarrow> BoardState \<Rightarrow> int \<Rightarrow> bool \<Rightarrow> number \<Rightarrow> number \<Rightarrow> number \<times> nat option" where
  "score_move_at (Some MarkX) b d mx alpha beta = (Num (- 10), None)"
| "score_move_at (Some MarkO) b d mx alpha beta = (Num 10, None)"
| "score_move_at None b d mx alpha beta =
     (if every_occupied b then (Num 0, None)
      else if d = 0 then (Num 0, None)
      else if mx then best_max b d (getAvailableMoves b) alpha beta NegInf None
      else best_min b d (getAvailableMoves b) alpha beta PosInf None)"

section \<open>The evaluator finds the first completed line\<close>

lemma scan_lines_hit:
  "completed boardState (a, b, c) \<Longrightarrow>
     scan_lines boardState ((a, b, c) # ls)
       = Some \<lparr>winner = cell boardState a, line = Some [a, b, c]\<rparr>"
  by (auto simp: completed_def)

lemma scan_lines_skip:
  "\<not> completed boardState l \<Longrightarrow> scan_lines boardState (l # ls) = scan_lines boardState ls"
  by (cases l) (auto simp: completed_def)

lemma scan_lines_first:
  assumes "i < length ls" and "ls ! i = (a, b, c)" and "completed boardState (ls ! i)"
    and "\<forall>j<i. \<not> completed boardState (ls ! j)"
  shows "scan_lines boardState ls = Some \<lparr>winner = cell boardState a, line = Some [a, b, c]\<rparr>"
  using assms
proof (induction ls arbitrary: i)
  case Nil
  then show ?case by simp
next
  case (Cons l ls)
  show ?case
  proof (cases i)
    case 0
    with Cons.prems show ?thesis
      by (simp add: scan_lines_hit del: scan_lines.simps)
  next
    case (Suc k)
    have "\<not> completed boardState l"
      using Cons.prems(4) Suc by (metis nth_Cons_0 zero_less_Suc)
    moreover have "scan_lines boardState ls
        = Some \<lparr>winner = cell boardState a, line = Some [a, b, c]\<rparr>"
    proof (rule Cons.IH)
      show "k < length ls" "ls ! k = (a, b, c)" "completed boardState (ls ! k)"
        using Cons.prems(1-3) Suc by simp_all
      show "\<forall>j<k. \<not> completed boardState (ls ! j)"
        using Cons.prems(4) Suc by (metis Suc_less_eq nth_Cons_Suc)
    qed
    ultimately show ?thesis
      by (simp add: scan_lines_skip del: scan_lines.simps)
  qed
qed

lemma scan_lines_none:
  "\<forall>l\<in>set ls. \<not> completed boardState l \<Longrightarrow> scan_lines boardState ls = None"
  by (induction ls) (simp_all add: scan_lines_skip del: scan_lines.simps(2))

lemma checkWinner_first:
  assumes "i < length lines" and "lines ! i = (a, b, c)" and "completed boardState (lines ! i)"
    and "\<forall>j<i. \<not> completed boardState (lines ! j)"
  shows "checkWinner boardState = \<lparr>winner = cell boardState a, line = Some [a, b, c]\<rparr>"
  using scan_lines_first[OF assms] by (simp add: checkWinner_def)

lemma checkWinner_none:
  "\<forall>l\<in>set lines. \<not> completed boardState l \<Longrightarrow>
     checkWinner boardState = \<lparr>winner = None, line = None\<rparr>"
  using scan_lines_none[of lines boardState] by (simp add: checkWinner_def)

lemma completed_holds:
  "completed boardState l \<longleftrightarrow> holds_line boardState MarkX l \<or> holds_line boardState MarkO l"
proof -
  obtain a b c where "l = (a, b, c)"
    by (cases l) auto
  then show ?thesis
    by (cases "cell boardState a"; cases "the (cell boardState a)")
       (auto simp: completed_def holds_line_def)
qed

lemma holds_line_one: "holds_line boardState MarkX l \<Longrightarrow> \<not> holds_line boardState MarkO l"
  by (auto simp: holds_line_def split: prod.splits)

lemma checkWinner_cases:
  "(\<forall>i a b c. i < length lines \<and> lines ! i = (a, b, c) \<and> completed boardState (lines ! i)
        \<and> (\<forall>j<i. \<not> completed boardState (lines ! j))
      \<longrightarrow> checkWinner boardState = \<lparr>winner = cell boardState a, line = Some [a, b, c]\<rparr>
          \<and> cell boardState a \<noteq> None)
   \<and> ((\<forall>l\<in>set lines. \<not> completed boardState l)
      \<longrightarrow> checkWinner boardState = \<lparr>winner = None, line = None\<rparr>)"
proof (intro conjI allI impI)
  fix i a b c
  assume h: "i < length lines \<and> lines ! i = (a, b, c) \<and> completed boardState (lines ! i)
        \<and> (\<forall>j<i. \<not> completed boardState (lines ! j))"
  then show "checkWinner boardState = \<lparr>winner = cell boardState a, line = Some [a, b, c]\<rparr>"
    using checkWinner_first by blast
  from h have "completed boardState (a, b, c)"
    by metis
  then show "cell boardState a \<noteq> None"
    by (auto simp: completed_def)
next
  assume "\<forall>l\<in>set lines. \<not> completed boardState l"
  then show "checkWinner boardState = \<lparr>winner = None, line = None\<rparr>"
    by (rule checkWinner_none)
qed

lemma checkWinner_both_sides:
  assumes "i < length lines" and "j < length lines"
    and "holds_line boardState MarkX (lines ! i)" and "holds_line boardState MarkO (lines ! j)"
    and "\<forall>k<i. \<not> holds_line boardState MarkX (lines ! k)"
    and "\<forall>k<j. \<not> holds_line boardState MarkO (lines ! k)"
  shows "winner (checkWinner boardState) = (if i < j then Some MarkX else Some MarkO)"
proof -
  have ne: "i \<noteq> j"
    using assms(3,4) holds_line_one by blast
  define k where "k = min i j"
  obtain a b c where l: "lines ! k = (a, b, c)"
    by (cases "lines ! k") auto
  have "k < length lines"
    using assms(1,2) by (simp add: k_def)
  moreover have "completed boardState (lines ! k)"
    using assms(3,4) by (auto simp: k_def min_def completed_holds)
  moreover have "\<forall>n<k. \<not> completed boardState (lines ! n)"
    using assms(5,6) by (auto simp: k_def completed_holds)
  ultimately have "checkWinner boardState = \<lparr>winner = cell boardState a, line = Some [a, b, c]\<rparr>"
    using l by (intro checkWinner_first) auto
  moreover have "cell boardState a = (if i < j then Some MarkX else Some MarkO)"
    using assms(3,4) l ne by (auto simp: k_def min_def holds_line_def split: if_splits)
  ultimately show ?thesis
    by simp
qed

section \<open>Leaves, chosen moves and finite scores\<close>

lemma empties_pos: "\<not> every_occupied boardState \<Longrightarrow> 0 < empties boardState"
  by (induction boardState) (auto simp: every_occupied_def empties_def)

lemma minimax_depth:
  "int (empties b) \<le> d \<Longrightarrow> int (empties b) \<le> d' \<Longrightarrow>
     minimax b d mx alpha beta = minimax b d' mx alpha beta"
proof (induction b d mx alpha beta arbitrary: d' rule: minimax.induct)
  case (1 b d mx alpha beta)
  show ?case
  proof (cases "every_occupied b")
    case True
    then show ?thesis
      by (subst (1 2) minimax.simps) simp
  next
    case False
    then have pos: "d \<noteq> 0" "d' \<noteq> 0"
      using empties_pos[of b] "1.prems" by auto
    have child: "int (empties (b[m := Some p])) \<le> d - 1 \<and> int (empties (b[m := Some p])) \<le> d' - 1"
      if "m \<in> set (getAvailableMoves b)" for m p
      using that "1.prems" empties_update[of m b p] by (auto simp: getAvailableMoves_set)
    have mx_eq: "loop_max (\<lambda>newBoard a b. minimax newBoard (d - 1) False a b) b
             (getAvailableMoves b) alpha beta NegInf None []
         = loop_max (\<lambda>newBoard a b. minimax newBoard (d' - 1) False a b) b
             (getAvailableMoves b) alpha beta NegInf None []"
      if "winner (checkWinner b) \<noteq> Some MarkX" "winner (checkWinner b) \<noteq> Some MarkO" "mx"
      using that False pos child by (intro loop_max_cong refl "1.IH"(1)) auto
    have mn_eq: "loop_min (\<lambda>newBoard a b. minimax newBoard (d - 1) True a b) b
             (getAvailableMoves b) alpha beta PosInf None []
         = loop_min (\<lambda>newBoard a b. minimax newBoard (d' - 1) True a b) b
             (getAvailableMoves b) alpha beta PosInf None []"
      if "winner (checkWinner b) \<noteq> Some MarkX" "winner (checkWinner b) \<noteq> Some MarkO" "\<not> mx"
      using that False pos child by (intro loop_min_cong refl "1.IH"(2)) auto
    show ?thesis
      using pos mx_eq mn_eq by (subst (1 2) minimax.simps) simp
  qed
qed

lemma loop_max_chosen:
  assumes "\<And>m a be. m \<in> set ms \<Longrightarrow> \<exists>k. r_score (f (b[m := Some MarkO]) a be) = Num k"
    and "set ms \<subseteq> M"
    and "(bestScore = NegInf \<and> ms \<noteq> []) \<or> chosen M bestScore bestMove"
  shows "case loop_max f b ms alpha beta bestScore bestMove kids of
           (s, mv, ks) \<Rightarrow> chosen M s mv"
  using assms
proof (induction ms arbitrary: alpha bestScore bestMove kids)
  case Nil
  then show ?case by simp
next
  case (Cons m ms)
  obtain k where k: "r_score (f (b[m := Some MarkO]) alpha beta) = Num k"
    using Cons.prems(1)[of m] by auto
  define bestScore' where "bestScore' = (if bestScore < Num k then Num k else bestScore)"
  define bestMove' where "bestMove' = (if bestScore < Num k then Some m else bestMove)"
  have ch: "chosen M bestScore' bestMove'"
    using Cons.prems(2,3) by (auto simp: chosen_def bestScore'_def bestMove'_def)
  have rest: "case loop_max f b ms alpha' beta bestScore' bestMove' kids' of
           (s, mv, ks) \<Rightarrow> chosen M s mv" for alpha' kids'
  proof (cases ms)
    case Nil
    then show ?thesis using ch by simp
  next
    case (Cons m' ms')
    show ?thesis
      using Cons.prems(1,2) ch by (intro Cons.IH) auto
  qed
  show ?case
  proof (cases "bestScore < Num k")
    case True
    then have "bestScore' = Num k" "bestMove' = Some m"
      by (simp_all add: bestScore'_def bestMove'_def)
    with ch rest True show ?thesis
      by (simp add: Let_def k)
  next
    case False
    then have "bestScore' = bestScore" "bestMove' = bestMove"
      by (simp_all add: bestScore'_def bestMove'_def)
    with ch rest False show ?thesis
      by (simp add: Let_def k)
  qed
qed

lemma loop_min_chosen:
  assumes "\<And>m a be. m \<in> set ms \<Longrightarrow> \<exists>k. r_score (f (b[m := Some MarkX]) a be) = Num k"
    and "set ms \<subseteq> M"
    and "(bestScore = PosInf \<and> ms \<noteq> []) \<or> chosen M bestScore bestMove"
  shows "case loop_min f b ms alpha beta bestScore bestMove kids of
           (s, mv, ks) \<Rightarrow> chosen M s mv"
  using assms
proof (induction ms arbitrary: beta bestScore bestMove kids)
  case Nil
  then show ?case by simp
next
  case (Cons m ms)
  obtain k where k: "r_score (f (b[m := Some MarkX]) alpha beta) = Num k"
    using Cons.prems(1)[of m] by auto
  define bestScore' where "bestScore' = (if Num k < bestScore then Num k else bestScore)"
  define bestMove' where "bestMove' = (if Num k < bestScore then Some m else bestMove)"
  have ch: "chosen M bestScore' bestMove'"
    using Cons.prems(2,3) by (auto simp: chosen_def bestScore'_def bestMove'_def)
  have rest: "case loop_min f b ms alpha beta' bestScore' bestMove' kids' of
           (s, mv, ks) \<Rightarrow> chosen M s mv" for beta' kids'
  proof (cases ms)
    case Nil
    then show ?thesis using ch by simp
  next
    case (Cons m' ms')
    show ?thesis
      using Cons.prems(1,2) ch by (intro Cons.IH) auto
  qed
  show ?case
  proof (cases "Num k < bestScore")
    case True
    then have "bestScore' = Num k" "bestMove' = Some m"
      by (simp_all add: bestScore'_def bestMove'_def)
    with ch rest True show ?thesis
      by (simp add: Let_def k)
  next
    case False
    then have "bestScore' = bestScore" "bestMove' = bestMove"
      by (simp_all add: bestScore'_def bestMove'_def)
    with ch rest False show ?thesis
      by (simp add: Let_def k)
  qed
qed

lemma moves_nonempty: "\<not> every_occupied b \<Longrightarrow> getAvailableMoves b \<noteq> []"
  by (auto simp: every_occupied_def getAvailableMoves_def filter_empty_conv list_all_iff in_set_conv_nth)

lemma minimax_interior:
  assumes "winner (checkWinner b) \<noteq> Some MarkX" "winner (checkWinner b) \<noteq> Some MarkO"
    and "\<not> every_occupied b" and "d \<noteq> 0"
    and "\<And>m a be. m \<in> set (getAvailableMoves b) \<Longrightarrow>
           \<exists>k. r_score (minimax (b[m := Some (if mx then MarkO else MarkX)]) (d - 1) (\<not> mx) a be)
                 = Num k"
  shows "chosen (set (getAvailableMoves b))
           (r_score (minimax b d mx alpha beta)) (r_move (minimax b d mx alpha beta))"
proof (cases mx)
  case True
  have "case loop_max (\<lambda>newBoard a b. minimax newBoard (d - 1) False a b) b
               (getAvailableMoves b) alpha beta NegInf None [] of
           (s, mv, ks) \<Rightarrow> chosen (set (getAvailableMoves b)) s mv"
    using assms(3,5) True by (intro loop_max_chosen) (auto simp: moves_nonempty)
  then show ?thesis
    using True assms(1-4) by (subst (1 2) minimax.simps) (auto split: prod.splits)
next
  case False
  have "case loop_min (\<lambda>newBoard a b. minimax newBoard (d - 1) True a b) b
               (getAvailableMoves b) alpha beta PosInf None [] of
           (s, mv, ks) \<Rightarrow> chosen (set (getAvailableMoves b)) s mv"
    using assms(3,5) False by (intro loop_min_chosen) (auto simp: moves_nonempty)
  then show ?thesis
    using False assms(1-4) by (subst (1 2) minimax.simps) (auto split: prod.splits)
qed

lemma minimax_leaf:
  assumes "winner (checkWinner b) = Some MarkX \<or> winner (checkWinner b) = Some MarkO
             \<or> every_occupied b \<or> d = 0"
  shows "minimax b d mx alpha beta =
           \<lparr>r_score = (if winner (checkWinner b) = Some MarkX then SCORES_X
                       else if winner (checkWinner b) = Some MarkO then SCORES_O
                       else if every_occupied b then SCORES_tie else Num 0),
            r_move = None, r_tree = None\<rparr>"
  using assms by (subst minimax.simps) auto

text \<open>
  The children that a loop returns start with the children it was given, and when the
  recursive call returns no tree, the loop appends a node that it makes itself from the new
  board, the score and the move.
\<close>

lemma loop_max_kids_prefix:
  "\<exists>more. snd (snd (loop_max f b ms alpha beta bestScore bestMove kids)) = kids @ more"
proof (induction ms arbitrary: alpha bestScore bestMove kids)
  case Nil
  show ?case by simp
next
  case (Cons m ms)
  have "\<exists>more. snd (snd (loop_max f b ms a beta s mv (kids @ [c]))) = kids @ more" for a s mv c
    using Cons.IH[of a s mv "kids @ [c]"] by auto
  then show ?case
    by (simp add: Let_def)
qed

lemma loop_min_kids_prefix:
  "\<exists>more. snd (snd (loop_min f b ms alpha beta bestScore bestMove kids)) = kids @ more"
proof (induction ms arbitrary: beta bestScore bestMove kids)
  case Nil
  show ?case by simp
next
  case (Cons m ms)
  have "\<exists>more. snd (snd (loop_min f b ms alpha be s mv (kids @ [c]))) = kids @ more" for be s mv c
    using Cons.IH[of be s mv "kids @ [c]"] by auto
  then show ?case
    by (simp add: Let_def)
qed

lemma loop_max_leaf_child:
  assumes "r_tree (f (b[m := Some MarkO]) alpha beta) = None"
  shows "\<exists>more. snd (snd (loop_max f b (m # ms) alpha beta bestScore bestMove kids))
           = kids @ TreeNode (b[m := Some MarkO]) (r_score (f (b[m := Some MarkO]) alpha beta))
                      (Some m) [] # more"
proof -
  let ?child = "TreeNode (b[m := Some MarkO]) (r_score (f (b[m := Some MarkO]) alpha beta))
                      (Some m) []"
  have "\<exists>more. snd (snd (loop_max f b ms a beta s mv (kids @ [?child]))) = kids @ ?child # more"
    for a s mv
    using loop_max_kids_prefix[of f b ms a beta s mv "kids @ [?child]"] by auto
  then show ?thesis
    using assms by (simp add: Let_def)
qed

lemma loop_min_leaf_child:
  assumes "r_tree (f (b[m := Some MarkX]) alpha beta) = None"
  shows "\<exists>more. snd (snd (loop_min f b (m # ms) alpha beta bestScore bestMove kids))
           = kids @ TreeNode (b[m := Some MarkX]) (r_score (f (b[m := Some MarkX]) alpha beta))
                      (Some m) [] # more"
proof -
  let ?child = "TreeNode (b[m := Some MarkX]) (r_score (f (b[m := Some MarkX]) alpha beta))
                      (Some m) []"
  have "\<exists>more. snd (snd (loop_min f b ms alpha be s mv (kids @ [?child]))) = kids @ ?child # more"
    for be s mv
    using loop_min_kids_prefix[of f b ms alpha be s mv "kids @ [?child]"] by auto
  then show ?thesis
    using assms by (simp add: Let_def)
qed

lemma terminal_leaf:
  assumes "winner (checkWinner boardState) \<noteq> None \<or> every_occupied boardState"
  shows "minimax boardState depth isMaximizing alpha beta =
       \<lparr>r_score = (case winner (checkWinner boardState) of
                     Some MarkX \<Rightarrow> SCORES_X
                   | Some MarkO \<Rightarrow> SCORES_O
                   | None \<Rightarrow> SCORES_tie),
        r_move = None, r_tree = None\<rparr>"
proof (cases "winner (checkWinner boardState)")
  case None
  with assms show ?thesis by (simp add: minimax_leaf)
next
  case (Some p)
  then show ?thesis by (cases p) (simp_all add: minimax_leaf)
qed

lemma minimax_score_finite: "\<exists>k. r_score (minimax b d mx alpha beta) = Num k"
proof (induction b d mx alpha beta rule: minimax.induct)
  case (1 b d mx alpha beta)
  show ?case
  proof (cases "winner (checkWinner b) = Some MarkX \<or> winner (checkWinner b) = Some MarkO
             \<or> every_occupied b \<or> d = 0")
    case True
    then show ?thesis
      by (simp add: minimax_leaf SCORES_X_def SCORES_O_def SCORES_tie_def)
  next
    case False
    have "chosen (set (getAvailableMoves b))
           (r_score (minimax b d mx alpha beta)) (r_move (minimax b d mx alpha beta))"
    proof (rule minimax_interior)
      show "\<exists>k. r_score (minimax (b[m := Some (if mx then MarkO else MarkX)]) (d - 1) (\<not> mx) a be)
                 = Num k"
        if "m \<in> set (getAvailableMoves b)" for m a be
        using False that "1.IH"(1)[of m a be] "1.IH"(2)[of m a be] by (cases mx) auto
    qed (use False in auto)
    then show ?thesis
      by (auto simp: chosen_def)
  qed
qed

section \<open>Correctness of the pruning\<close>

lemma fold_max_ge: "V \<le> fold (\<lambda>m v. max v (h m)) ms (V :: number)"
  by (induction ms arbitrary: V) (auto intro: order_trans[OF max.cobounded1])

lemma fold_min_le: "fold (\<lambda>m v. min v (h m)) ms (V :: number) \<le> V"
  by (induction ms arbitrary: V) (auto intro: order_trans[OF _ min.cobounded1])

lemma loop_max_sound:
  assumes "\<And>m a be. m \<in> set ms \<Longrightarrow> a < be \<Longrightarrow>
             within a be (r_score (f (b[m := Some MarkO]) a be)) (g (b[m := Some MarkO]))"
    and "al = max al0 best" and "al < be"
    and "best \<le> al0 \<longrightarrow> V \<le> best" and "al0 < best \<longrightarrow> best = V"
  shows "within al0 be (fst (loop_max f b ms al be best bm ks))
           (fold (\<lambda>m v. max v (g (b[m := Some MarkO]))) ms V)"
  using assms
proof (induction ms arbitrary: al best V bm ks)
  case Nil
  then show ?case
    by (auto simp: within_def max_def split: if_splits)
next
  case (Cons m ms)
  define r where "r = r_score (f (b[m := Some MarkO]) al be)"
  define v where "v = g (b[m := Some MarkO])"
  define best' where "best' = (if best < r then r else best)"
  have w: "within al be r v"
    unfolding r_def v_def using Cons.prems(1)[of m al be] Cons.prems(3) by simp
  define bm' where "bm' = (if best < r then Some m else bm)"
  define ks' where "ks' = ks @ [case r_tree (f (b[m := Some MarkO]) al be) of
      Some tree \<Rightarrow> tree
    | None \<Rightarrow> TreeNode (b[m := Some MarkO]) (r_score (f (b[m := Some MarkO]) al be)) (Some m) []]"
  have step:
    "fst (loop_max f b (m # ms) al be best bm ks) =
       (if be \<le> max al best' then best'
        else fst (loop_max f b ms (max al best') be best' bm' ks'))"
    by (simp add: Let_def r_def best'_def bm'_def ks'_def)
  have fold_step: "fold (\<lambda>m v. max v (g (b[m := Some MarkO]))) (m # ms) V
      = fold (\<lambda>m v. max v (g (b[m := Some MarkO]))) ms (max V v)"
    by (simp add: v_def)
  show ?case
  proof (cases "be \<le> max al best'")
    case True
    have "r \<le> v" "best' = r" "be \<le> r"
      using True w Cons.prems(2,3) by (auto simp: within_def best'_def max_def split: if_splits)
    moreover have "max V v \<le> fold (\<lambda>m v. max v (g (b[m := Some MarkO]))) ms (max V v)"
      by (rule fold_max_ge)
    ultimately have "be \<le> best'" "best' \<le> fold (\<lambda>m v. max v (g (b[m := Some MarkO]))) ms (max V v)"
      by (auto simp: max_def split: if_splits)
    moreover have "al0 < be"
      using Cons.prems(2,3) by (auto simp: max_def split: if_splits)
    ultimately show ?thesis
      unfolding step fold_step using True by (auto simp: within_def)
  next
    case False
    have "within al0 be (fst (loop_max f b ms (max al best') be best' bm' ks'))
           (fold (\<lambda>m v. max v (g (b[m := Some MarkO]))) ms (max V v))"
    proof (rule Cons.IH)
      show "within a be' (r_score (f (b[m := Some MarkO]) a be')) (g (b[m := Some MarkO]))"
        if "m \<in> set ms" "a < be'" for m a be'
        using that Cons.prems(1) by simp
      show "max al best' = max al0 best'"
        using Cons.prems(2) by (auto simp: best'_def max_def split: if_splits)
      show "max al best' < be"
        using False by (simp only: not_le)
      show "best' \<le> al0 \<longrightarrow> max V v \<le> best'"
        using w Cons.prems(2-5) False
        by (auto simp: within_def best'_def max_def split: if_splits)
      show "al0 < best' \<longrightarrow> best' = max V v"
        using w Cons.prems(2-5) False
        by (auto simp: within_def best'_def max_def split: if_splits)
    qed
    then show ?thesis
      unfolding step fold_step using False by simp
  qed
qed

lemma loop_min_sound:
  assumes "\<And>m a be. m \<in> set ms \<Longrightarrow> a < be \<Longrightarrow>
             within a be (r_score (f (b[m := Some MarkX]) a be)) (g (b[m := Some MarkX]))"
    and "be = min be0 best" and "al < be"
    and "be0 \<le> best \<longrightarrow> best \<le> V" and "best < be0 \<longrightarrow> best = V"
  shows "within al be0 (fst (loop_min f b ms al be best bm ks))
           (fold (\<lambda>m v. min v (g (b[m := Some MarkX]))) ms V)"
  using assms
proof (induction ms arbitrary: be best V bm ks)
  case Nil
  then show ?case
    by (auto simp: within_def min_def split: if_splits)
next
  case (Cons m ms)
  define r where "r = r_score (f (b[m := Some MarkX]) al be)"
  define v where "v = g (b[m := Some MarkX])"
  define best' where "best' = (if r < best then r else best)"
  have w: "within al be r v"
    unfolding r_def v_def using Cons.prems(1)[of m al be] Cons.prems(3) by simp
  define bm' where "bm' = (if r < best then Some m else bm)"
  define ks' where "ks' = ks @ [case r_tree (f (b[m := Some MarkX]) al be) of
      Some tree \<Rightarrow> tree
    | None \<Rightarrow> TreeNode (b[m := Some MarkX]) (r_score (f (b[m := Some MarkX]) al be)) (Some m) []]"
  have step:
    "fst (loop_min f b (m # ms) al be best bm ks) =
       (if min be best' \<le> al then best'
        else fst (loop_min f b ms al (min be best') best' bm' ks'))"
    by (simp add: Let_def r_def best'_def bm'_def ks'_def)
  have fold_step: "fold (\<lambda>m v. min v (g (b[m := Some MarkX]))) (m # ms) V
      = fold (\<lambda>m v. min v (g (b[m := Some MarkX]))) ms (min V v)"
    by (simp add: v_def)
  show ?case
  proof (cases "min be best' \<le> al")
    case True
    have "v \<le> r" "best' = r" "r \<le> al"
      using True w Cons.prems(2,3) by (auto simp: within_def best'_def min_def split: if_splits)
    moreover have "fold (\<lambda>m v. min v (g (b[m := Some MarkX]))) ms (min V v) \<le> min V v"
      by (rule fold_min_le)
    ultimately have "best' \<le> al" "fold (\<lambda>m v. min v (g (b[m := Some MarkX]))) ms (min V v) \<le> best'"
      by (auto simp: min_def split: if_splits)
    moreover have "al < be0"
      using Cons.prems(2,3) by (auto simp: min_def split: if_splits)
    ultimately show ?thesis
      unfolding step fold_step using True by (auto simp: within_def)
  next
    case False
    have "within al be0 (fst (loop_min f b ms al (min be best') best' bm' ks'))
           (fold (\<lambda>m v. min v (g (b[m := Some MarkX]))) ms (min V v))"
    proof (rule Cons.IH)
      show "within a be' (r_score (f (b[m := Some MarkX]) a be')) (g (b[m := Some MarkX]))"
        if "m \<in> set ms" "a < be'" for m a be'
        using that Cons.prems(1) by simp
      show "min be best' = min be0 best'"
        using Cons.prems(2) by (auto simp: best'_def min_def split: if_splits)
      show "al < min be best'"
        using False by (simp only: not_le)
      show "be0 \<le> best' \<longrightarrow> best' \<le> min V v"
        using w Cons.prems(2-5) False
        by (auto simp: within_def best'_def min_def split: if_splits)
      show "best' < be0 \<longrightarrow> best' = min V v"
        using w Cons.prems(2-5) False
        by (auto simp: within_def best'_def min_def split: if_splits)
    qed
    then show ?thesis
      unfolding step fold_step using False by simp
  qed
qed

lemma within_refl: "within alpha beta r r"
  by (simp add: within_def)

lemma pick_max: "(if v < s then s else v) = max v (s :: number)"
  by (auto simp: max_def)

lemma pick_min: "(if s < v then s else v) = min v (s :: number)"
  by (auto simp: min_def)

lemma max_NegInf [simp]: "max x NegInf = x"
  by (cases x) (simp_all add: max_def)

lemma min_PosInf [simp]: "min x PosInf = x"
  by (cases x) (simp_all add: min_def)

lemma minimax_within:
  "alpha < beta \<Longrightarrow>
     within alpha beta (r_score (minimax b d mx alpha beta)) (minimax_unpruned b d mx)"
proof (induction b d mx alpha beta rule: minimax.induct)
  case (1 b d mx alpha beta)
  consider (leaf) "winner (checkWinner b) = Some MarkX \<or> winner (checkWinner b) = Some MarkO
                     \<or> every_occupied b \<or> d = 0"
    | (maxi) "winner (checkWinner b) \<noteq> Some MarkX" "winner (checkWinner b) \<noteq> Some MarkO"
             "\<not> every_occupied b" "d \<noteq> 0" "mx"
    | (mini) "winner (checkWinner b) \<noteq> Some MarkX" "winner (checkWinner b) \<noteq> Some MarkO"
             "\<not> every_occupied b" "d \<noteq> 0" "\<not> mx"
    by blast
  then show ?case
  proof cases
    case leaf
    have "r_score (minimax b d mx alpha beta) = minimax_unpruned b d mx"
      using leaf by (subst minimax.simps, subst minimax_unpruned.simps) auto
    then show ?thesis
      by (simp add: within_refl)
  next
    case maxi
    have l: "r_score (minimax b d mx alpha beta) =
          fst (loop_max (\<lambda>newBoard a b. minimax newBoard (d - 1) False a b) b
                 (getAvailableMoves b) alpha beta NegInf None [])"
      using maxi by (subst minimax.simps) (simp split: prod.splits)
    have r: "minimax_unpruned b d mx =
          fold (\<lambda>m v. max v (minimax_unpruned (b[m := Some MarkO]) (d - 1) False))
            (getAvailableMoves b) NegInf"
      using maxi by (subst minimax_unpruned.simps) (simp add: Let_def pick_max)
    show ?thesis
      unfolding l r
    proof (rule loop_max_sound)
      show "within a be (r_score (minimax (b[m := Some MarkO]) (d - 1) False a be))
              (minimax_unpruned (b[m := Some MarkO]) (d - 1) False)"
        if "m \<in> set (getAvailableMoves b)" "a < be" for m a be
        using "1.IH"(1)[OF maxi that] .
    qed (use "1.prems" in simp_all)
  next
    case mini
    have l: "r_score (minimax b d mx alpha beta) =
          fst (loop_min (\<lambda>newBoard a b. minimax newBoard (d - 1) True a b) b
                 (getAvailableMoves b) alpha beta PosInf None [])"
      using mini by (subst minimax.simps) (simp split: prod.splits)
    have r: "minimax_unpruned b d mx =
          fold (\<lambda>m v. min v (minimax_unpruned (b[m := Some MarkX]) (d - 1) True))
            (getAvailableMoves b) PosInf"
      using mini by (subst minimax_unpruned.simps) (simp add: Let_def pick_min)
    show ?thesis
      unfolding l r
    proof (rule loop_min_sound)
      show "within a be (r_score (minimax (b[m := Some MarkX]) (d - 1) True a be))
              (minimax_unpruned (b[m := Some MarkX]) (d - 1) True)"
        if "m \<in> set (getAvailableMoves b)" "a < be" for m a be
        using "1.IH"(2)[OF mini that] .
    qed (use "1.prems" in simp_all)
  qed
qed

lemma minimax_full_window:
  "r_score (minimax b d mx NegInf PosInf) = minimax_unpruned b d mx"
proof -
  have "within NegInf PosInf (r_score (minimax b d mx NegInf PosInf)) (minimax_unpruned b d mx)"
    by (rule minimax_within) simp
  then show ?thesis
    by (cases "r_score (minimax b d mx NegInf PosInf)"; cases "minimax_unpruned b d mx")
       (auto simp: within_def)
qed

section \<open>The search over the store agrees with the search on boards\<close>

lemma extends_iff:
  "extends s s' \<longleftrightarrow>
     (\<exists>as ws. arrays s' = arrays s @ as \<and> writes s' = writes s @ ws
        \<and> (\<forall>w\<in>set ws. length (arrays s) \<le> w))"
proof
  assume "extends s s'"
  then have t: "take (length (arrays s)) (arrays s') = arrays s"
      "take (length (writes s)) (writes s') = writes s"
    and "\<forall>w\<in>set (drop (length (writes s)) (writes s')). length (arrays s) \<le> w"
    by (simp_all add: extends_def list_all_iff)
  moreover have "arrays s' = arrays s @ drop (length (arrays s)) (arrays s')"
    using t(1) by (metis append_take_drop_id)
  moreover have "writes s' = writes s @ drop (length (writes s)) (writes s')"
    using t(2) by (metis append_take_drop_id)
  ultimately show "\<exists>as ws. arrays s' = arrays s @ as \<and> writes s' = writes s @ ws
        \<and> (\<forall>w\<in>set ws. length (arrays s) \<le> w)"
    by blast
next
  assume "\<exists>as ws. arrays s' = arrays s @ as \<and> writes s' = writes s @ ws
        \<and> (\<forall>w\<in>set ws. length (arrays s) \<le> w)"
  then show "extends s s'"
    by (auto simp: extends_def list_all_iff)
qed

lemma extends_refl: "extends s s"
  by (simp add: extends_def)

lemma extends_trans:
  assumes "extends s s1" and "extends s1 s2"
  shows "extends s s2"
proof -
  obtain as1 ws1 where 1: "arrays s1 = arrays s @ as1" "writes s1 = writes s @ ws1"
      "\<forall>w\<in>set ws1. length (arrays s) \<le> w"
    using assms(1) unfolding extends_iff by blast
  obtain as2 ws2 where 2: "arrays s2 = arrays s1 @ as2" "writes s2 = writes s1 @ ws2"
      "\<forall>w\<in>set ws2. length (arrays s1) \<le> w"
    using assms(2) unfolding extends_iff by blast
  have "arrays s2 = arrays s @ (as1 @ as2)" "writes s2 = writes s @ (ws1 @ ws2)"
    using 1 2 by simp_all
  moreover have "\<forall>w\<in>set (ws1 @ ws2). length (arrays s) \<le> w"
    using 1 2 by auto
  ultimately show ?thesis
    unfolding extends_iff by blast
qed

lemma extends_length: "extends s s' \<Longrightarrow> length (arrays s) \<le> length (arrays s')"
  by (auto simp: extends_iff)

lemma extends_nth: "extends s s' \<Longrightarrow> r < length (arrays s) \<Longrightarrow> arrays s' ! r = arrays s ! r"
  by (auto simp: extends_iff nth_append)

lemma tree_valid_extends: "extends s s' \<Longrightarrow> tree_valid s t \<Longrightarrow> tree_valid s' t"
proof (induction t)
  case (TreeNodeRef r sc mv ks)
  then show ?case
    using extends_length[of s s'] by (auto simp: list_all_iff)
qed

lemma tree_abs_extends: "extends s s' \<Longrightarrow> tree_valid s t \<Longrightarrow> tree_abs s' t = tree_abs s t"
proof (induction t)
  case (TreeNodeRef r sc mv ks)
  then show ?case
    by (auto simp: list_all_iff extends_nth)
qed

lemma copy_write:
  assumes "r < length (arrays s)"
  shows "extends s (write_cell (snd (copy_array s r)) (length (arrays s)) m v)"
    and "length (arrays s)
           < length (arrays (write_cell (snd (copy_array s r)) (length (arrays s)) m v))"
    and "arrays (write_cell (snd (copy_array s r)) (length (arrays s)) m v) ! length (arrays s)
           = (arrays s ! r)[m := v]"
  using assms
  by (auto simp: extends_iff copy_array_def write_cell_def nth_append)

lemma copy_extends: "extends s (snd (copy_array s r))"
  and copy_length: "length (arrays (snd (copy_array s r))) = Suc (length (arrays s))"
  by (auto simp: extends_iff copy_array_def)

lemma child_abs:
  assumes "result_abs s3 res = pure" and "result_valid s3 res" and "nb < length (arrays s3)"
    and "arrays s3 ! nb = newBoard"
  shows "tree_valid s3 (case s_tree res of Some tree \<Rightarrow> tree
                          | None \<Rightarrow> TreeNodeRef nb (s_score res) (Some m) [])
       \<and> tree_abs s3 (case s_tree res of Some tree \<Rightarrow> tree
                          | None \<Rightarrow> TreeNodeRef nb (s_score res) (Some m) [])
           = (case r_tree pure of Some tree \<Rightarrow> tree
                          | None \<Rightarrow> TreeNode newBoard (r_score pure) (Some m) [])
       \<and> s_score res = r_score pure"
  using assms
  by (auto simp: result_abs_def result_valid_def split: option.splits)

lemma loop_max_store_sim:
  assumes "simulates recurse f ((\<lambda>m. b[m := Some MarkO]) ` set ms)"
    and "r < length (arrays s)" and "arrays s ! r = b" and "list_all (tree_valid s) kids"
  shows "\<exists>best' bm' kids' s'.
           loop_max_store recurse r ms s alpha beta best bm kids = Some ((best', bm', kids'), s')
           \<and> extends s s' \<and> list_all (tree_valid s') kids'
           \<and> loop_max f b ms alpha beta best bm (map (tree_abs s) kids)
               = (best', bm', map (tree_abs s') kids')"
  using assms
proof (induction ms arbitrary: s alpha best bm kids)
  case Nil
  then show ?case
    by (simp add: extends_refl)
next
  case (Cons m ms)
  let ?nb = "length (arrays s)"
  define s2 where "s2 = write_cell (snd (copy_array s r)) ?nb m (Some MarkO)"
  have s2: "extends s s2" "?nb < length (arrays s2)" "arrays s2 ! ?nb = b[m := Some MarkO]"
    using copy_write[OF Cons.prems(2), where m = m and v = "Some MarkO"] Cons.prems(3)
    by (simp_all add: s2_def)
  obtain res s3 where rec: "recurse s2 ?nb alpha beta = Some (res, s3)" "extends s2 s3"
      "result_valid s3 res" "result_abs s3 res = f (b[m := Some MarkO]) alpha beta"
    using Cons.prems(1) s2(2,3) unfolding simulates_def by (metis imageI list.set_intros(1))
  let ?pure = "f (b[m := Some MarkO]) alpha beta"
  define childRef where "childRef = (case s_tree res of Some tree \<Rightarrow> tree
                          | None \<Rightarrow> TreeNodeRef ?nb (s_score res) (Some m) [])"
  define best' where "best' = (if best < s_score res then s_score res else best)"
  define bm' where "bm' = (if best < s_score res then Some m else bm)"
  have e3: "extends s s3"
    using s2(1) rec(2) by (rule extends_trans)
  have nb3: "?nb < length (arrays s3)" "arrays s3 ! ?nb = b[m := Some MarkO]"
    using s2(2,3) rec(2) extends_length[OF rec(2)] by (simp_all add: extends_nth)
  have child: "tree_valid s3 childRef"
    "tree_abs s3 childRef = (case r_tree ?pure of Some tree \<Rightarrow> tree
                          | None \<Rightarrow> TreeNode (b[m := Some MarkO]) (r_score ?pure) (Some m) [])"
    "s_score res = r_score ?pure"
    using child_abs[OF rec(4) rec(3) nb3, of m]
    by (simp_all add: childRef_def)
  have kids3: "list_all (tree_valid s3) (kids @ [childRef])"
    "map (tree_abs s3) (kids @ [childRef]) = map (tree_abs s) kids @ [tree_abs s3 childRef]"
    using Cons.prems(4) child(1) e3
    by (auto simp: list_all_iff tree_valid_extends tree_abs_extends)
  have step: "loop_max_store recurse r (m # ms) s alpha beta best bm kids =
      (if beta \<le> max alpha best' then Some ((best', bm', kids @ [childRef]), s3)
       else loop_max_store recurse r ms s3 (max alpha best') beta best' bm' (kids @ [childRef]))"
    using rec(1)
    by (simp add: Let_def copy_array_def s2_def childRef_def best'_def bm'_def
          split: prod.splits)
  have pstep: "loop_max f b (m # ms) alpha beta best bm (map (tree_abs s) kids) =
      (if beta \<le> max alpha best' then (best', bm', map (tree_abs s3) (kids @ [childRef]))
       else loop_max f b ms (max alpha best') beta best' bm' (map (tree_abs s3) (kids @ [childRef])))"
    unfolding kids3(2) child(2)
    by (simp add: Let_def child(3) best'_def bm'_def)
  show ?case
  proof (cases "beta \<le> max alpha best'")
    case True
    then show ?thesis
      unfolding step pstep using e3 kids3(1) by simp
  next
    case False
    have "\<exists>best'' bm'' kids' s'.
           loop_max_store recurse r ms s3 (max alpha best') beta best' bm' (kids @ [childRef])
             = Some ((best'', bm'', kids'), s')
           \<and> extends s3 s' \<and> list_all (tree_valid s') kids'
           \<and> loop_max f b ms (max alpha best') beta best' bm' (map (tree_abs s3) (kids @ [childRef]))
               = (best'', bm'', map (tree_abs s') kids')"
    proof (rule Cons.IH)
      show "simulates recurse f ((\<lambda>m. b[m := Some MarkO]) ` set ms)"
        using Cons.prems(1) unfolding simulates_def by auto
      show "r < length (arrays s3)"
        using Cons.prems(2) extends_length[OF e3] by simp
      show "arrays s3 ! r = b"
        using Cons.prems(2,3) e3 by (simp add: extends_nth)
      show "list_all (tree_valid s3) (kids @ [childRef])"
        by (rule kids3(1))
    qed
    then show ?thesis
      unfolding step pstep using False e3 extends_trans by (auto simp del: map_append)
  qed
qed

lemma loop_min_store_sim:
  assumes "simulates recurse f ((\<lambda>m. b[m := Some MarkX]) ` set ms)"
    and "r < length (arrays s)" and "arrays s ! r = b" and "list_all (tree_valid s) kids"
  shows "\<exists>best' bm' kids' s'.
           loop_min_store recurse r ms s alpha beta best bm kids = Some ((best', bm', kids'), s')
           \<and> extends s s' \<and> list_all (tree_valid s') kids'
           \<and> loop_min f b ms alpha beta best bm (map (tree_abs s) kids)
               = (best', bm', map (tree_abs s') kids')"
  using assms
proof (induction ms arbitrary: s beta best bm kids)
  case Nil
  then show ?case
    by (simp add: extends_refl)
next
  case (Cons m ms)
  let ?nb = "length (arrays s)"
  define s2 where "s2 = write_cell (snd (copy_array s r)) ?nb m (Some MarkX)"
  have s2: "extends s s2" "?nb < length (arrays s2)" "arrays s2 ! ?nb = b[m := Some MarkX]"
    using copy_write[OF Cons.prems(2), where m = m and v = "Some MarkX"] Cons.prems(3)
    by (simp_all add: s2_def)
  obtain res s3 where rec: "recurse s2 ?nb alpha beta = Some (res, s3)" "extends s2 s3"
      "result_valid s3 res" "result_abs s3 res = f (b[m := Some MarkX]) alpha beta"
    using Cons.prems(1) s2(2,3) unfolding simulates_def by (metis imageI list.set_intros(1))
  let ?pure = "f (b[m := Some MarkX]) alpha beta"
  define childRef where "childRef = (case s_tree res of Some tree \<Rightarrow> tree
                          | None \<Rightarrow> TreeNodeRef ?nb (s_score res) (Some m) [])"
  define best' where "best' = (if s_score res < best then s_score res else best)"
  define bm' where "bm' = (if s_score res < best then Some m else bm)"
  have e3: "extends s s3"
    using s2(1) rec(2) by (rule extends_trans)
  have nb3: "?nb < length (arrays s3)" "arrays s3 ! ?nb = b[m := Some MarkX]"
    using s2(2,3) rec(2) extends_length[OF rec(2)] by (simp_all add: extends_nth)
  have child: "tree_valid s3 childRef"
    "tree_abs s3 childRef = (case r_tree ?pure of Some tree \<Rightarrow> tree
                          | None \<Rightarrow> TreeNode (b[m := Some MarkX]) (r_score ?pure) (Some m) [])"
    "s_score res = r_score ?pure"
    using child_abs[OF rec(4) rec(3) nb3, of m]
    by (simp_all add: childRef_def)
  have kids3: "list_all (tree_valid s3) (kids @ [childRef])"
    "map (tree_abs s3) (kids @ [childRef]) = map (tree_abs s) kids @ [tree_abs s3 childRef]"
    using Cons.prems(4) child(1) e3
    by (auto simp: list_all_iff tree_valid_extends tree_abs_extends)
  have step: "loop_min_store recurse r (m # ms) s alpha beta best bm kids =
      (if min beta best' \<le> alpha then Some ((best', bm', kids @ [childRef]), s3)
       else loop_min_store recurse r ms s3 alpha (min beta best') best' bm' (kids @ [childRef]))"
    using rec(1)
    by (simp add: Let_def copy_array_def s2_def childRef_def best'_def bm'_def
          split: prod.splits)
  have pstep: "loop_min f b (m # ms) alpha beta best bm (map (tree_abs s) kids) =
      (if min beta best' \<le> alpha then (best', bm', map (tree_abs s3) (kids @ [childRef]))
       else loop_min f b ms alpha (min beta best') best' bm' (map (tree_abs s3) (kids @ [childRef])))"
    unfolding kids3(2) child(2)
    by (simp add: Let_def child(3) best'_def bm'_def)
  show ?case
  proof (cases "min beta best' \<le> alpha")
    case True
    then show ?thesis
      unfolding step pstep using e3 kids3(1) by simp
  next
    case False
    have "\<exists>best'' bm'' kids' s'.
           loop_min_store recurse r ms s3 alpha (min beta best') best' bm' (kids @ [childRef])
             = Some ((best'', bm'', kids'), s')
           \<and> extends s3 s' \<and> list_all (tree_valid s') kids'
           \<and> loop_min f b ms alpha (min beta best') best' bm' (map (tree_abs s3) (kids @ [childRef]))
               = (best'', bm'', map (tree_abs s') kids')"
    proof (rule Cons.IH)
      show "simulates recurse f ((\<lambda>m. b[m := Some MarkX]) ` set ms)"
        using Cons.prems(1) unfolding simulates_def by auto
      show "r < length (arrays s3)"
        using Cons.prems(2) extends_length[OF e3] by simp
      show "arrays s3 ! r = b"
        using Cons.prems(2,3) e3 by (simp add: extends_nth)
      show "list_all (tree_valid s3) (kids @ [childRef])"
        by (rule kids3(1))
    qed
    then show ?thesis
      unfolding step pstep using False e3 extends_trans by (auto simp del: map_append)
  qed
qed

lemma minimax_store_sim:
  "r < length (arrays s) \<Longrightarrow> empties (arrays s ! r) < fuel \<Longrightarrow>
     \<exists>res s'. minimax_store fuel s r d mx alpha beta = Some (res, s')
        \<and> extends s s' \<and> result_valid s' res
        \<and> result_abs s' res = minimax (arrays s ! r) d mx alpha beta"
proof (induction fuel arbitrary: s r d mx alpha beta)
  case 0
  then show ?case by simp
next
  case (Suc fuel)
  let ?b = "arrays s ! r"
  show ?case
  proof (cases "winner (checkWinner ?b) = Some MarkX \<or> winner (checkWinner ?b) = Some MarkO
             \<or> every_occupied ?b \<or> d = 0")
    case True
    then show ?thesis
      by (auto simp: minimax_leaf extends_refl result_valid_def result_abs_def)
  next
    case False
    let ?s1 = "snd (copy_array s r)"
    let ?n = "length (arrays s)"
    have s1: "extends s ?s1" "r < length (arrays ?s1)" "arrays ?s1 ! r = ?b"
      "?n < length (arrays ?s1)" "arrays ?s1 ! ?n = ?b"
      using Suc.prems(1) by (auto simp: extends_iff copy_array_def nth_append)
    have sim: "simulates (\<lambda>st newBoard a b. minimax_store fuel st newBoard (d - 1) mx' a b)
        (\<lambda>newBoard a b. minimax newBoard (d - 1) mx' a b)
        ((\<lambda>m. ?b[m := Some p]) ` set (getAvailableMoves ?b))" for mx' p
      unfolding simulates_def
    proof (intro allI impI)
      fix st :: store and r' a b'
      assume h: "r' < length (arrays st) \<and> arrays st ! r' \<in> (\<lambda>m. ?b[m := Some p]) ` set (getAvailableMoves ?b)"
      then obtain m where "m \<in> set (getAvailableMoves ?b)" "arrays st ! r' = ?b[m := Some p]"
        by auto
      then have "empties (arrays st ! r') < fuel"
        using empties_update[of m ?b p] Suc.prems(2) by (simp add: getAvailableMoves_set)
      with h show "\<exists>res s'. minimax_store fuel st r' (d - 1) mx' a b' = Some (res, s')
          \<and> extends st s' \<and> result_valid s' res
          \<and> result_abs s' res = minimax (arrays st ! r') (d - 1) mx' a b'"
        by (intro Suc.IH) simp_all
    qed
    show ?thesis
    proof (cases mx)
      case True
      obtain best' bm' kids' s' where l:
        "loop_max_store (\<lambda>st newBoard a b. minimax_store fuel st newBoard (d - 1) False a b)
            r (getAvailableMoves ?b) ?s1 alpha beta NegInf None [] = Some ((best', bm', kids'), s')"
        "extends ?s1 s'" "list_all (tree_valid s') kids'"
        "loop_max (\<lambda>newBoard a b. minimax newBoard (d - 1) False a b) ?b
            (getAvailableMoves ?b) alpha beta NegInf None (map (tree_abs ?s1) [])
           = (best', bm', map (tree_abs s') kids')"
        using loop_max_store_sim[OF sim[of False MarkO] s1(2,3), of "[]" alpha beta NegInf None]
        by auto
      have n: "?n < length (arrays s')" "arrays s' ! ?n = ?b"
        using s1(4,5) l(2) extends_length[OF l(2)] by (simp_all add: extends_nth)
      have "minimax_store (Suc fuel) s r d mx alpha beta =
          Some (\<lparr>s_score = best', s_move = bm',
                  s_tree = Some (TreeNodeRef ?n best' bm' kids')\<rparr>, s')"
        using False True l(1) by (simp add: copy_array_def)
      moreover have "minimax ?b d mx alpha beta =
          \<lparr>r_score = best', r_move = bm',
           r_tree = Some (TreeNode ?b best' bm' (map (tree_abs s') kids'))\<rparr>"
        using False True l(4) by (subst minimax.simps) simp
      moreover have "extends s s'"
        using s1(1) l(2) by (rule extends_trans)
      ultimately show ?thesis
        using n l(3) by (simp add: result_valid_def result_abs_def)
    next
      case mn: False
      obtain best' bm' kids' s' where l:
        "loop_min_store (\<lambda>st newBoard a b. minimax_store fuel st newBoard (d - 1) True a b)
            r (getAvailableMoves ?b) ?s1 alpha beta PosInf None [] = Some ((best', bm', kids'), s')"
        "extends ?s1 s'" "list_all (tree_valid s') kids'"
        "loop_min (\<lambda>newBoard a b. minimax newBoard (d - 1) True a b) ?b
            (getAvailableMoves ?b) alpha beta PosInf None (map (tree_abs ?s1) [])
           = (best', bm', map (tree_abs s') kids')"
        using loop_min_store_sim[OF sim[of True MarkX] s1(2,3), of "[]" alpha beta PosInf None]
        by auto
      have n: "?n < length (arrays s')" "arrays s' ! ?n = ?b"
        using s1(4,5) l(2) extends_length[OF l(2)] by (simp_all add: extends_nth)
      have "minimax_store (Suc fuel) s r d mx alpha beta =
          Some (\<lparr>s_score = best', s_move = bm',
                  s_tree = Some (TreeNodeRef ?n best' bm' kids')\<rparr>, s')"
        using False mn l(1) by (simp add: copy_array_def)
      moreover have "minimax ?b d mx alpha beta =
          \<lparr>r_score = best', r_move = bm',
           r_tree = Some (TreeNode ?b best' bm' (map (tree_abs s') kids'))\<rparr>"
        using False mn l(4) by (subst minimax.simps) simp
      moreover have "extends s s'"
        using s1(1) l(2) by (rule extends_trans)
      ultimately show ?thesis
        using n l(3) by (simp add: result_valid_def result_abs_def)
    qed
  qed
qed

section \<open>Evaluating a search step by step\<close>

lemma loop_max_kids:
  "best_of (loop_max f b ms alpha beta bestScore bestMove kids)
     = best_of (loop_max f b ms alpha beta bestScore bestMove [])"
proof (induction ms arbitrary: alpha bestScore bestMove kids)
  case Nil
  show ?case by (simp add: best_of_def)
next
  case (Cons m ms)
  show ?case
    by (simp add: Let_def best_of_def[where t="(x, y, z)" for x y z]) (metis Cons.IH)
qed

lemma loop_min_kids:
  "best_of (loop_min f b ms alpha beta bestScore bestMove kids)
     = best_of (loop_min f b ms alpha beta bestScore bestMove [])"
proof (induction ms arbitrary: beta bestScore bestMove kids)
  case Nil
  show ?case by (simp add: best_of_def)
next
  case (Cons m ms)
  show ?case
    by (simp add: Let_def best_of_def[where t="(x, y, z)" for x y z]) (metis Cons.IH)
qed

lemma best_max_Nil: "best_max b d [] alpha beta bestScore bestMove = (bestScore, bestMove)"
  by (simp add: best_max_def best_of_def)

lemma best_min_Nil: "best_min b d [] alpha beta bestScore bestMove = (bestScore, bestMove)"
  by (simp add: best_min_def best_of_def)

lemma best_max_Cons:
  "best_max b d (m # ms) alpha beta bestScore bestMove =
     after_max b d ms alpha beta bestScore bestMove m
       (fst (score_move (b[m := Some MarkO]) (d - 1) False alpha beta))"
  unfolding best_max_def after_max_def score_move_def
  by (simp add: Let_def best_of_def[where t="(x, y, z)" for x y z] best_max_def[symmetric])
     (metis loop_max_kids best_max_def)

lemma best_min_Cons:
  "best_min b d (m # ms) alpha beta bestScore bestMove =
     after_min b d ms alpha beta bestScore bestMove m
       (fst (score_move (b[m := Some MarkX]) (d - 1) True alpha beta))"
  unfolding best_min_def after_min_def score_move_def
  by (simp add: Let_def best_of_def[where t="(x, y, z)" for x y z] best_min_def[symmetric])
     (metis loop_min_kids best_min_def)

lemma score_move_unfold:
  "score_move b d mx alpha beta = score_move_at (winner (checkWinner b)) b d mx alpha beta"
proof (cases "winner (checkWinner b)")
  case None
  then show ?thesis
    by (subst score_move_def, subst (1 2) minimax.simps)
       (simp add: best_max_def best_min_def best_of_def SCORES_tie_def split: prod.splits)
next
  case (Some p)
  then show ?thesis
    by (cases p; subst score_move_def, subst (1 2) minimax.simps)
       (simp_all add: SCORES_X_def SCORES_O_def)
qed

lemma upd9:
  "[c0, c1, c2, c3, c4, c5, c6, c7, c8][0 := v] = [v, c1, c2, c3, c4, c5, c6, c7, c8]"
  "[c0, c1, c2, c3, c4, c5, c6, c7, c8][1 := v] = [c0, v, c2, c3, c4, c5, c6, c7, c8]"
  "[c0, c1, c2, c3, c4, c5, c6, c7, c8][2 := v] = [c0, c1, v, c3, c4, c5, c6, c7, c8]"
  "[c0, c1, c2, c3, c4, c5, c6, c7, c8][3 := v] = [c0, c1, c2, v, c4, c5, c6, c7, c8]"
  "[c0, c1, c2, c3, c4, c5, c6, c7, c8][4 := v] = [c0, c1, c2, c3, v, c5, c6, c7, c8]"
  "[c0, c1, c2, c3, c4, c5, c6, c7, c8][5 := v] = [c0, c1, c2, c3, c4, v, c6, c7, c8]"
  "[c0, c1, c2, c3, c4, c5, c6, c7, c8][6 := v] = [c0, c1, c2, c3, c4, c5, v, c7, c8]"
  "[c0, c1, c2, c3, c4, c5, c6, c7, c8][7 := v] = [c0, c1, c2, c3, c4, c5, c6, v, c8]"
  "[c0, c1, c2, c3, c4, c5, c6, c7, c8][8 := v] = [c0, c1, c2, c3, c4, c5, c6, c7, v]"
  by (simp_all add: eval_nat_numeral)

lemma nth9:
  "[c0, c1, c2, c3, c4, c5, c6, c7, c8] ! 0 = c0"
  "[c0, c1, c2, c3, c4, c5, c6, c7, c8] ! 1 = c1"
  "[c0, c1, c2, c3, c4, c5, c6, c7, c8] ! 2 = c2"
  "[c0, c1, c2, c3, c4, c5, c6, c7, c8] ! 3 = c3"
  "[c0, c1, c2, c3, c4, c5, c6, c7, c8] ! 4 = c4"
  "[c0, c1, c2, c3, c4, c5, c6, c7, c8] ! 5 = c5"
  "[c0, c1, c2, c3, c4, c5, c6, c7, c8] ! 6 = c6"
  "[c0, c1, c2, c3, c4, c5, c6, c7, c8] ! 7 = c7"
  "[c0, c1, c2, c3, c4, c5, c6, c7, c8] ! 8 = c8"
  by (simp_all add: eval_nat_numeral)

lemma cell9:
  "cell [c0, c1, c2, c3, c4, c5, c6, c7, c8] 0 = c0"
  "cell [c0, c1, c2, c3, c4, c5, c6, c7, c8] 1 = c1"
  "cell [c0, c1, c2, c3, c4, c5, c6, c7, c8] 2 = c2"
  "cell [c0, c1, c2, c3, c4, c5, c6, c7, c8] 3 = c3"
  "cell [c0, c1, c2, c3, c4, c5, c6, c7, c8] 4 = c4"
  "cell [c0, c1, c2, c3, c4, c5, c6, c7, c8] 5 = c5"
  "cell [c0, c1, c2, c3, c4, c5, c6, c7, c8] 6 = c6"
  "cell [c0, c1, c2, c3, c4, c5, c6, c7, c8] 7 = c7"
  "cell [c0, c1, c2, c3, c4, c5, c6, c7, c8] 8 = c8"
  unfolding cell_def by (simp_all add: eval_nat_numeral)

lemma every9:
  "every_occupied [c0, c1, c2, c3, c4, c5, c6, c7, c8] =
     (c0 \<noteq> None \<and> c1 \<noteq> None \<and> c2 \<noteq> None \<and> c3 \<noteq> None \<and> c4 \<noteq> None
      \<and> c5 \<noteq> None \<and> c6 \<noteq> None \<and> c7 \<noteq> None \<and> c8 \<noteq> None)"
  by (simp add: every_occupied_def)

lemma upt9: "[0 ..< 9] = [0, 1, 2, 3, 4, 5, 6, 7, 8 :: nat]"
  by code_simp

lemma moves9:
  "getAvailableMoves [c0, c1, c2, c3, c4, c5, c6, c7, c8] =
     filter (\<lambda>index. [c0, c1, c2, c3, c4, c5, c6, c7, c8] ! index = None)
       [0, 1, 2, 3, 4, 5, 6, 7, 8]"
proof -
  have "length [c0, c1, c2, c3, c4, c5, c6, c7, c8] = 9"
    by simp
  then show ?thesis
    by (simp only: getAvailableMoves_def upt9)
qed

lemma ord9:
  "(NegInf < Num i) = True" "(Num i < PosInf) = True" "(NegInf < PosInf) = True"
  "(x < NegInf) = False" "(PosInf < x) = False"
  "(NegInf \<le> x) = True" "(x \<le> PosInf) = True"
  "(Num i \<le> NegInf) = False" "(PosInf \<le> Num i) = False" "(PosInf \<le> NegInf) = False"
  "(Num (- 10) < Num (- 10)) = False" "(Num (- 10) < Num 0) = True"
  "(Num (- 10) < Num 10) = True" "(Num 0 < Num (- 10)) = False"
  "(Num 0 < Num 0) = False" "(Num 0 < Num 10) = True"
  "(Num 10 < Num (- 10)) = False" "(Num 10 < Num 0) = False" "(Num 10 < Num 10) = False"
  "(Num (- 10) \<le> Num (- 10)) = True" "(Num (- 10) \<le> Num 0) = True"
  "(Num (- 10) \<le> Num 10) = True" "(Num 0 \<le> Num (- 10)) = False"
  "(Num 0 \<le> Num 0) = True" "(Num 0 \<le> Num 10) = True"
  "(Num 10 \<le> Num (- 10)) = False" "(Num 10 \<le> Num 0) = False" "(Num 10 \<le> Num 10) = True"
  by (cases x; simp)+

lemma dep9:
  "(9::int) - 1 = 8" "(8::int) - 1 = 7" "(7::int) - 1 = 6" "(6::int) - 1 = 5"
  "(5::int) - 1 = 4" "(4::int) - 1 = 3" "(3::int) - 1 = 2" "(2::int) - 1 = 1"
  "(1::int) - 1 = 0"
  "((9::int) = 0) = False" "((8::int) = 0) = False" "((7::int) = 0) = False"
  "((6::int) = 0) = False" "((5::int) = 0) = False" "((4::int) = 0) = False"
  "((3::int) = 0) = False" "((2::int) = 0) = False" "((1::int) = 0) = False"
  "((0::int) = 0) = True"
  by simp_all

lemmas search9 =
  score_move_unfold score_move_at.simps best_max_Nil best_min_Nil best_max_Cons best_min_Cons
  after_max_def after_min_def upd9 nth9 cell9 every9 moves9 checkWinner_def lines_def
  scan_lines.simps max_def min_def ord9 dep9 filter.simps option.case
  winner_result.select_convs option.distinct option.inject mark.distinct simp_thms
  if_True if_False fst_conv prod.inject

lemma fixture_search: "score_move fixture 5 False NegInf PosInf = (Num (- 10), Some 2)"
  unfolding fixture_def
  by (simp only: search9 cong: if_weak_cong option.case_cong_weak)

text \<open>With a depth budget of 2 the search on \<open>fixture\<close> does return move 5.\<close>

lemma fixture_shallow: "score_move fixture 2 False NegInf PosInf = (Num (- 10), Some 5)"
  unfolding fixture_def
  by (simp only: search9 cong: if_weak_cong option.case_cong_weak)

lemma emptyBoard_cells: "emptyBoard = [None, None, None, None, None, None, None, None, None]"
  unfolding emptyBoard_def by code_simp

lemma after_corner_search:
  "score_move [Some MarkO, None, None, None, None, None, None, None, None] 8 False NegInf PosInf
     = (Num 0, Some 4)"
  by (simp only: search9 cong: if_weak_cong option.case_cong_weak)

lemma emptyBoard_search: "score_move emptyBoard 9 True NegInf PosInf = (Num 0, Some 0)"
proof -
  have "score_move emptyBoard 9 True NegInf PosInf =
      after_max emptyBoard 9 [1, 2, 3, 4, 5, 6, 7, 8] NegInf PosInf NegInf None 0
        (fst (score_move [Some MarkO, None, None, None, None, None, None, None, None] 8 False
           NegInf PosInf))"
    unfolding emptyBoard_cells
    by (subst score_move_unfold)
       (simp only: score_move_at.simps best_max_Cons upd9 nth9 cell9 every9 moves9
          checkWinner_def lines_def scan_lines.simps dep9 filter.simps option.case
          winner_result.select_convs option.distinct simp_thms if_True if_False
          cong: if_weak_cong option.case_cong_weak)
  also have "\<dots> = after_max emptyBoard 9 [1, 2, 3, 4, 5, 6, 7, 8] NegInf PosInf NegInf None 0 (Num 0)"
    by (simp only: after_corner_search fst_conv)
  also have "\<dots> = (Num 0, Some 0)"
    unfolding emptyBoard_cells
    by (simp only: search9 cong: if_weak_cong option.case_cong_weak)
  finally show ?thesis .
qed

section \<open>The claims\<close>

subsection \<open>C1: the regression board\<close>

lemma empties_fixture: "empties fixture = 5"
  by (simp add: fixture_def empties_def)

lemma fixture_deep:
  assumes "5 \<le> depth"
  shows "score_move fixture depth False NegInf PosInf = (Num (- 10), Some 2)"
proof -
  have "minimax fixture depth False NegInf PosInf = minimax fixture 5 False NegInf PosInf"
    using assms by (intro minimax_depth) (simp_all add: empties_fixture)
  then show ?thesis
    using fixture_search by (simp add: score_move_def)
qed

text \<open>
  Claim C1, as stated, fails: on the board \<^verbatim>\<open>["O","O",null,"X","X",null,null,null,null]\<close>
  with X to move and depth budget 9 the search does not return move 5 with score -10.
\<close>

theorem fixture_move_counterexample:
  "\<not> (r_move (minimax fixture 9 False NegInf PosInf) = Some 5
      \<and> r_score (minimax fixture 9 False NegInf PosInf) = Num (- 10))"
  using fixture_deep[of 9] by (simp add: score_move_def)

text \<open>
  Claim C1, amended. On that board, with X to move and a depth budget of at least 5 (the
  number of empty cells, so that every terminal state is reached), \<open>minimax\<close> returns score
  -10 and move 2: cell 2 is the first candidate in ascending order that reaches -10, and
  the strict comparison keeps the first best move.
\<close>

theorem fixture_win:
  "5 \<le> depth \<Longrightarrow>
     r_score (minimax fixture depth False NegInf PosInf) = Num (- 10)
     \<and> r_move (minimax fixture depth False NegInf PosInf) = Some 2"
  using fixture_deep[of depth] by (simp add: score_move_def)

theorem fixture_win_witness:
  "(5 :: int) \<le> 9
     \<and> r_score (minimax fixture 9 False NegInf PosInf) = Num (- 10)
     \<and> r_move (minimax fixture 9 False NegInf PosInf) = Some 2"
  using fixture_win[of 9] by simp

subsection \<open>C2: pruning\<close>

text \<open>
  Claim C2. The score that \<open>minimax\<close> returns with alpha-beta pruning active, started with
  the default bounds, equals the score of the same search with pruning disabled. This
  holds for every board and every depth budget, so in particular for every board reachable
  in legal play and every depth budget of at least 9.
\<close>

theorem pruning_preserves_score:
  "r_score (minimax boardState depth isMaximizing NegInf PosInf)
     = minimax_unpruned boardState depth isMaximizing"
  by (rule minimax_full_window)

theorem pruning_preserves_score_witness:
  "r_score (minimax emptyBoard 9 True NegInf PosInf) = Num 0
     \<and> minimax_unpruned emptyBoard 9 True = Num 0"
  using pruning_preserves_score[of emptyBoard 9 True] emptyBoard_search
  by (simp add: score_move_def)

subsection \<open>C3: the empty board\<close>

lemma empties_emptyBoard: "empties emptyBoard = 9"
  by (simp add: emptyBoard_cells empties_def)

lemma emptyBoard_corner:
  "emptyBoard[0 := Some MarkO] = [Some MarkO, None, None, None, None, None, None, None, None]"
  by (simp add: emptyBoard_cells)

lemma after_corner_value:
  assumes "9 \<le> depth"
  shows "minimax_unpruned (emptyBoard[0 := Some MarkO]) (depth - 1) False = Num 0"
proof -
  have "empties (emptyBoard[0 := Some MarkO]) = 8"
    by (simp add: emptyBoard_corner empties_def)
  then have "minimax (emptyBoard[0 := Some MarkO]) (depth - 1) False NegInf PosInf
      = minimax (emptyBoard[0 := Some MarkO]) 8 False NegInf PosInf"
    using assms by (intro minimax_depth) simp_all
  then have "r_score (minimax (emptyBoard[0 := Some MarkO]) (depth - 1) False NegInf PosInf) = Num 0"
    using after_corner_search by (simp add: score_move_def emptyBoard_corner)
  then show ?thesis
    by (simp add: minimax_full_window)
qed

text \<open>
  Claim C3. On the empty board with the maximizing side to move and a depth budget of at
  least 9, \<open>minimax\<close> returns score 0, and it returns a move after which the search
  without pruning, that is mutually optimal play, gives the maximizer at least a tie.
\<close>

theorem empty_board_draw:
  "9 \<le> depth \<Longrightarrow>
     r_score (minimax emptyBoard depth True NegInf PosInf) = Num 0
     \<and> (\<exists>move. r_move (minimax emptyBoard depth True NegInf PosInf) = Some move
           \<and> SCORES_tie \<le> minimax_unpruned (emptyBoard[move := Some MarkO]) (depth - 1) False)"
proof -
  assume d: "9 \<le> depth"
  have "minimax emptyBoard depth True NegInf PosInf = minimax emptyBoard 9 True NegInf PosInf"
    using d by (intro minimax_depth) (simp_all add: empties_emptyBoard)
  then have "r_score (minimax emptyBoard depth True NegInf PosInf) = Num 0"
    and "r_move (minimax emptyBoard depth True NegInf PosInf) = Some 0"
    using emptyBoard_search by (simp_all add: score_move_def)
  moreover have "SCORES_tie \<le> minimax_unpruned (emptyBoard[0 := Some MarkO]) (depth - 1) False"
    using after_corner_value[OF d] by (simp add: SCORES_tie_def)
  ultimately show ?thesis
    by blast
qed

theorem empty_board_draw_witness:
  "(9 :: int) \<le> 9
     \<and> r_score (minimax emptyBoard 9 True NegInf PosInf) = Num 0
     \<and> (\<exists>move. r_move (minimax emptyBoard 9 True NegInf PosInf) = Some move
           \<and> SCORES_tie \<le> minimax_unpruned (emptyBoard[move := Some MarkO]) (9 - 1) False)"
  using empty_board_draw[of 9] by simp

subsection \<open>C4: terminal boards\<close>

lemma lateBoard_won:
  "checkWinner (lateBoard[7 := Some MarkO]) = \<lparr>winner = Some MarkO, line = Some [1, 4, 7]\<rparr>"
  by (simp add: lateBoard_def checkWinner_def lines_def cell_def)

lemma wonBoard_winner: "checkWinner wonBoard = \<lparr>winner = Some MarkX, line = Some [0, 1, 2]\<rparr>"
  by (simp add: wonBoard_def checkWinner_def lines_def cell_def)

text \<open>
  Claim C4, as stated, fails: on a board that X has won, \<open>minimax\<close> with depth budget 0
  returns no tree node at all, where the claim has it return a leaf tree node.
\<close>

theorem terminal_tree_counterexample:
  "winner (checkWinner wonBoard) = Some MarkX
     \<and> r_tree (minimax wonBoard 0 True NegInf PosInf) = None"
  by (simp add: minimax_leaf wonBoard_winner)

text \<open>
  Claim C4, amended. Whenever the board is terminal (a completed line, or full with no
  line), \<open>minimax\<close> returns the fixed score of that outcome with no move and no tree node,
  for every depth budget including 0 and whatever the bounds; and the calling loop, of
  either side, makes the leaf node itself from the board, the score and the move, and
  appends it to the children it has so far.
\<close>

theorem terminal_result:
  "winner (checkWinner boardState) \<noteq> None \<or> every_occupied boardState \<Longrightarrow>
     minimax boardState depth isMaximizing alpha beta =
       \<lparr>r_score = (case winner (checkWinner boardState) of
                     Some MarkX \<Rightarrow> SCORES_X
                   | Some MarkO \<Rightarrow> SCORES_O
                   | None \<Rightarrow> SCORES_tie),
        r_move = None, r_tree = None\<rparr>
     \<and> (\<forall>parent move rest a b bestScore bestMove kids.
           parent[move := Some MarkO] = boardState \<longrightarrow>
           (\<exists>more. snd (snd (loop_max (\<lambda>newBoard x y. minimax newBoard depth False x y)
                              parent (move # rest) a b bestScore bestMove kids))
              = kids @ TreeNode boardState
                         (case winner (checkWinner boardState) of
                            Some MarkX \<Rightarrow> SCORES_X
                          | Some MarkO \<Rightarrow> SCORES_O
                          | None \<Rightarrow> SCORES_tie)
                         (Some move) [] # more))
     \<and> (\<forall>parent move rest a b bestScore bestMove kids.
           parent[move := Some MarkX] = boardState \<longrightarrow>
           (\<exists>more. snd (snd (loop_min (\<lambda>newBoard x y. minimax newBoard depth True x y)
                              parent (move # rest) a b bestScore bestMove kids))
              = kids @ TreeNode boardState
                         (case winner (checkWinner boardState) of
                            Some MarkX \<Rightarrow> SCORES_X
                          | Some MarkO \<Rightarrow> SCORES_O
                          | None \<Rightarrow> SCORES_tie)
                         (Some move) [] # more))"
proof -
  assume t: "winner (checkWinner boardState) \<noteq> None \<or> every_occupied boardState"
  let ?fixed = "case winner (checkWinner boardState) of
                     Some MarkX \<Rightarrow> SCORES_X
                   | Some MarkO \<Rightarrow> SCORES_O
                   | None \<Rightarrow> SCORES_tie"
  have leaf: "minimax boardState d mx x y = \<lparr>r_score = ?fixed, r_move = None, r_tree = None\<rparr>"
    for d mx x y
    using t by (rule terminal_leaf)
  have mx_loop: "\<exists>more. snd (snd (loop_max (\<lambda>newBoard x y. minimax newBoard depth False x y)
                              parent (move # rest) a b bestScore bestMove kids))
              = kids @ TreeNode boardState ?fixed (Some move) [] # more"
    if "parent[move := Some MarkO] = boardState" for parent move rest a b bestScore bestMove kids
    using loop_max_leaf_child[of "\<lambda>newBoard x y. minimax newBoard depth False x y"
        parent move a b rest bestScore bestMove kids] that
    by (simp add: leaf)
  have mn_loop: "\<exists>more. snd (snd (loop_min (\<lambda>newBoard x y. minimax newBoard depth True x y)
                              parent (move # rest) a b bestScore bestMove kids))
              = kids @ TreeNode boardState ?fixed (Some move) [] # more"
    if "parent[move := Some MarkX] = boardState" for parent move rest a b bestScore bestMove kids
    using loop_min_leaf_child[of "\<lambda>newBoard x y. minimax newBoard depth True x y"
        parent move a b rest bestScore bestMove kids] that
    by (simp add: leaf)
  show ?thesis
    using leaf mx_loop mn_loop by blast
qed

theorem terminal_result_witness:
  "winner (checkWinner (lateBoard[7 := Some MarkO])) = Some MarkO
     \<and> minimax (lateBoard[7 := Some MarkO]) 1 False NegInf PosInf
         = \<lparr>r_score = Num 10, r_move = None, r_tree = None\<rparr>
     \<and> (\<exists>more. snd (snd (loop_max (\<lambda>newBoard x y. minimax newBoard 1 False x y)
                          lateBoard [7, 8] NegInf PosInf NegInf None []))
           = TreeNode (lateBoard[7 := Some MarkO]) (Num 10) (Some 7) [] # more)"
proof -
  have t: "winner (checkWinner (lateBoard[7 := Some MarkO])) \<noteq> None
      \<or> every_occupied (lateBoard[7 := Some MarkO])"
    by (simp add: lateBoard_won)
  have r: "minimax (lateBoard[7 := Some MarkO]) 1 False NegInf PosInf
         = \<lparr>r_score = Num 10, r_move = None, r_tree = None\<rparr>"
    and l: "\<forall>parent move rest a b bestScore bestMove kids.
           parent[move := Some MarkO] = lateBoard[7 := Some MarkO] \<longrightarrow>
           (\<exists>more. snd (snd (loop_max (\<lambda>newBoard x y. minimax newBoard 1 False x y)
                              parent (move # rest) a b bestScore bestMove kids))
              = kids @ TreeNode (lateBoard[7 := Some MarkO]) (Num 10) (Some move) [] # more)"
    using terminal_result[OF t, of 1 False NegInf PosInf]
    by (simp_all add: lateBoard_won SCORES_O_def del: loop_max.simps loop_min.simps)
  have "\<exists>more. snd (snd (loop_max (\<lambda>newBoard x y. minimax newBoard 1 False x y)
                          lateBoard [7, 8] NegInf PosInf NegInf None []))
           = [] @ TreeNode (lateBoard[7 := Some MarkO]) (Num 10) (Some 7) [] # more"
    using l by blast
  then show ?thesis
    using r by (simp add: lateBoard_won del: loop_max.simps)
qed

subsection \<open>C5: the depth cutoff\<close>

lemma tiedBoard_winner: "checkWinner tiedBoard = \<lparr>winner = None, line = None\<rparr>"
  by (simp add: tiedBoard_def checkWinner_def lines_def cell_def)

lemma emptyBoard_winner: "checkWinner emptyBoard = \<lparr>winner = None, line = None\<rparr>"
  by (simp add: emptyBoard_cells checkWinner_def lines_def cell_def)

lemma tiedBoard_full: "every_occupied tiedBoard"
  by (simp add: tiedBoard_def every_occupied_def)

lemma emptyBoard_open: "\<not> every_occupied emptyBoard"
  by (simp add: emptyBoard_cells every_occupied_def)

text \<open>
  Claim C5. For every board that is not terminal, \<open>minimax\<close> with depth budget 0 returns
  score 0 with no move. The cutoff is told from a true tie by the board: whenever
  \<open>minimax\<close> returns score 0 with no move, the board has no completed line, and either it
  is full, and then the result is the tie of the terminal test, or it has an empty cell,
  and then the depth budget is 0. So a tie arises only from the terminal test on a full
  board.
\<close>

theorem cutoff_result:
  "(winner (checkWinner boardState) = None \<and> \<not> every_occupied boardState
      \<longrightarrow> minimax boardState 0 isMaximizing alpha beta
            = \<lparr>r_score = Num 0, r_move = None, r_tree = None\<rparr>)
   \<and> (r_score (minimax boardState depth isMaximizing alpha beta) = Num 0
        \<and> r_move (minimax boardState depth isMaximizing alpha beta) = None
      \<longrightarrow> winner (checkWinner boardState) = None
          \<and> (if every_occupied boardState
              then minimax boardState depth isMaximizing alpha beta
                     = \<lparr>r_score = SCORES_tie, r_move = None, r_tree = None\<rparr>
              else depth = 0))"
proof (intro conjI impI)
  assume "winner (checkWinner boardState) = None \<and> \<not> every_occupied boardState"
  then show "minimax boardState 0 isMaximizing alpha beta
            = \<lparr>r_score = Num 0, r_move = None, r_tree = None\<rparr>"
    by (simp add: minimax_leaf)
next
  assume z: "r_score (minimax boardState depth isMaximizing alpha beta) = Num 0
        \<and> r_move (minimax boardState depth isMaximizing alpha beta) = None"
  have leaf: "winner (checkWinner boardState) = Some MarkX
      \<or> winner (checkWinner boardState) = Some MarkO
      \<or> every_occupied boardState \<or> depth = 0"
  proof (rule ccontr)
    assume n: "\<not> ?thesis"
    have "chosen (set (getAvailableMoves boardState))
        (r_score (minimax boardState depth isMaximizing alpha beta))
        (r_move (minimax boardState depth isMaximizing alpha beta))"
      using n by (intro minimax_interior minimax_score_finite) simp_all
    with z show False
      by (simp add: chosen_def)
  qed
  have nx: "winner (checkWinner boardState) \<noteq> Some MarkX"
    and no: "winner (checkWinner boardState) \<noteq> Some MarkO"
    using z leaf by (auto simp: minimax_leaf SCORES_X_def SCORES_O_def)
  then show w: "winner (checkWinner boardState) = None"
    by (cases "winner (checkWinner boardState)") (auto intro: mark.exhaust)
  show "if every_occupied boardState
        then minimax boardState depth isMaximizing alpha beta
               = \<lparr>r_score = SCORES_tie, r_move = None, r_tree = None\<rparr>
        else depth = 0"
    using leaf nx no by (auto simp: minimax_leaf)
qed

theorem cutoff_result_witness:
  "winner (checkWinner emptyBoard) = None \<and> \<not> every_occupied emptyBoard
     \<and> minimax emptyBoard 0 True NegInf PosInf
         = \<lparr>r_score = Num 0, r_move = None, r_tree = None\<rparr>
     \<and> r_score (minimax tiedBoard 9 False NegInf PosInf) = Num 0
     \<and> r_move (minimax tiedBoard 9 False NegInf PosInf) = None
     \<and> winner (checkWinner tiedBoard) = None \<and> every_occupied tiedBoard"
proof -
  have open_board: "winner (checkWinner emptyBoard) = None \<and> \<not> every_occupied emptyBoard"
    by (simp add: emptyBoard_def checkWinner_def lines_def cell_def every_occupied_def
          eval_nat_numeral)
  have tie: "r_score (minimax tiedBoard 9 False NegInf PosInf) = Num 0
      \<and> r_move (minimax tiedBoard 9 False NegInf PosInf) = None"
    by (simp add: minimax_leaf tiedBoard_def every_occupied_def checkWinner_def lines_def
          cell_def SCORES_tie_def)
  show ?thesis
    using cutoff_result[where boardState = emptyBoard and isMaximizing = True
        and alpha = NegInf and beta = PosInf and depth = 0]
      cutoff_result[where boardState = tiedBoard and isMaximizing = False
        and alpha = NegInf and beta = PosInf and depth = 9] open_board tie
    by (simp add: tiedBoard_def every_occupied_def)
qed


subsection \<open>C6: the move recorded in a tree node\<close>

text \<open>
  Claim C6 against the code. On \<open>lateBoard\<close> with O to move and depth budget 2 the root
  node carries move 7, its best move, where the claim has the root carry no move; and the
  second child, whose board was made by move 8, carries move 7, the best reply of X on
  that board, where the claim has it carry 8. Only the nodes made for terminal boards
  carry the move that produced them. The children are in the order of exploration.
\<close>

theorem tree_move_is_best_move:
  "minimax lateBoard 2 True NegInf PosInf =
     \<lparr>r_score = Num 10, r_move = Some 7,
      r_tree = Some
        (TreeNode lateBoard (Num 10) (Some 7)
           [TreeNode (lateBoard[7 := Some MarkO]) (Num 10) (Some 7) [],
            TreeNode (lateBoard[8 := Some MarkO]) (Num 0) (Some 7)
              [TreeNode (lateBoard[8 := Some MarkO, 7 := Some MarkX]) (Num 0) (Some 7) []]])\<rparr>"
  unfolding lateBoard_def by code_simp

subsection \<open>C7: the outcomes of the evaluator\<close>

text \<open>
  Claim C7, as stated, fails: the evaluator returns the same result for a full board with
  no line and for the empty board, so tie and non-terminal are not distinct results.
\<close>

theorem tie_not_distinct_counterexample:
  "every_occupied tiedBoard \<and> \<not> every_occupied emptyBoard
     \<and> checkWinner tiedBoard = checkWinner emptyBoard"
  by (simp add: tiedBoard_winner emptyBoard_winner tiedBoard_full emptyBoard_open)

text \<open>
  Claim C7, amended. For every board, if some line of the table is completed, then
  \<open>checkWinner\<close> returns the mark on the first completed line in the order of the table
  together with that line; if no line is completed it returns no winner and no line,
  whether the board is full or not. Callers tell a tie from a position still in play by
  testing themselves whether every cell is occupied.
\<close>

theorem evaluator_outcomes:
  "(\<forall>i a b c. i < length lines \<and> lines ! i = (a, b, c) \<and> completed boardState (lines ! i)
        \<and> (\<forall>j<i. \<not> completed boardState (lines ! j))
      \<longrightarrow> checkWinner boardState = \<lparr>winner = cell boardState a, line = Some [a, b, c]\<rparr>
          \<and> cell boardState a \<noteq> None)
   \<and> ((\<forall>l\<in>set lines. \<not> completed boardState l)
      \<longrightarrow> checkWinner boardState = \<lparr>winner = None, line = None\<rparr>)"
  by (rule checkWinner_cases)

theorem evaluator_outcomes_witness:
  "lines ! 0 = (0, 1, 2) \<and> completed wonBoard (lines ! 0)
   \<and> checkWinner wonBoard = \<lparr>winner = Some MarkX, line = Some [0, 1, 2]\<rparr>
   \<and> every_occupied tiedBoard
   \<and> checkWinner tiedBoard = \<lparr>winner = None, line = None\<rparr>"
proof -
  have first: "0 < length lines \<and> lines ! 0 = (0, 1, 2) \<and> completed wonBoard (lines ! 0)
      \<and> (\<forall>j<0. \<not> completed wonBoard (lines ! j))"
    by (simp add: lines_def completed_def wonBoard_def cell_def)
  have none: "\<forall>l\<in>set lines. \<not> completed tiedBoard l"
    by (simp add: lines_def completed_def tiedBoard_def cell_def)
  have "cell wonBoard 0 = Some MarkX"
    by (simp add: wonBoard_def cell_def)
  then show ?thesis
    using evaluator_outcomes[of wonBoard] evaluator_outcomes[of tiedBoard] first none
      tiedBoard_full
    by metis
qed

subsection \<open>C8: lines of both sides\<close>

text \<open>
  Claim C8, as stated, fails: \<open>bothBoard\<close> has a completed line of X and a completed line of
  O, and the evaluator returns O, whose line comes first in the table.
\<close>

theorem both_lines_counterexample:
  "holds_line bothBoard MarkX (3, 4, 5) \<and> holds_line bothBoard MarkO (0, 1, 2)
     \<and> winner (checkWinner bothBoard) = Some MarkO
     \<and> winner (checkWinner bothBoard) \<noteq> Some MarkX"
  by (simp add: bothBoard_def holds_line_def checkWinner_def lines_def cell_def)

text \<open>
  Claim C8, amended. For every board with a completed line of X and a completed line of O,
  the evaluator returns the side whose first completed line comes earlier in the table of
  lines: the loop goes through the lines, not through the sides.
\<close>

theorem first_line_wins:
  "i < length lines \<Longrightarrow> j < length lines \<Longrightarrow>
   holds_line boardState MarkX (lines ! i) \<Longrightarrow> holds_line boardState MarkO (lines ! j) \<Longrightarrow>
   \<forall>k<i. \<not> holds_line boardState MarkX (lines ! k) \<Longrightarrow>
   \<forall>k<j. \<not> holds_line boardState MarkO (lines ! k) \<Longrightarrow>
     winner (checkWinner boardState) = (if i < j then Some MarkX else Some MarkO)"
  by (rule checkWinner_both_sides)

theorem first_line_wins_witness:
  "holds_line bothBoard MarkX (lines ! 1) \<and> holds_line bothBoard MarkO (lines ! 0)
   \<and> winner (checkWinner bothBoard) = Some MarkO"
proof -
  have h: "1 < length lines" "0 < length lines"
    "holds_line bothBoard MarkX (lines ! 1)" "holds_line bothBoard MarkO (lines ! 0)"
    "\<forall>k<1. \<not> holds_line bothBoard MarkX (lines ! k)"
    "\<forall>k<0. \<not> holds_line bothBoard MarkO (lines ! k)"
    by (simp_all add: lines_def holds_line_def bothBoard_def cell_def)
  show ?thesis
    using first_line_wins[OF h] h by simp
qed

subsection \<open>C9: the board is not mutated\<close>

lemma lateStore_search:
  "minimax_store 3 lateStore 0 2 True NegInf PosInf =
     Some (\<lparr>s_score = Num 10, s_move = Some 7,
             s_tree = Some (TreeNodeRef 1 (Num 10) (Some 7)
               [TreeNodeRef 2 (Num 10) (Some 7) [],
                TreeNodeRef 4 (Num 0) (Some 7) [TreeNodeRef 5 (Num 0) (Some 7) []]])\<rparr>,
           \<lparr>arrays = [lateBoard, lateBoard, lateBoard[7 := Some MarkO],
                      lateBoard[8 := Some MarkO], lateBoard[8 := Some MarkO],
                      lateBoard[8 := Some MarkO, 7 := Some MarkX]],
            writes = [2, 3, 5]\<rparr>)"
  unfolding lateStore_def lateBoard_def by code_simp

text \<open>
  Claim C9. For every store, every board in it, every depth, side and bounds, the search
  over the store returns (fuel above the number of empty cells is enough) and leaves every
  array that existed before the call unchanged, the input board among them: each write of
  the call goes into an array that the call allocated itself, a fresh copy. What it
  returns is what \<open>minimax\<close> returns on the board as a value.
\<close>

theorem board_not_mutated:
  "boardState < length (arrays s) \<Longrightarrow> empties (arrays s ! boardState) < fuel \<Longrightarrow>
     \<exists>res s'. minimax_store fuel s boardState depth isMaximizing alpha beta = Some (res, s')
        \<and> arrays s' ! boardState = arrays s ! boardState
        \<and> extends s s'
        \<and> result_abs s' res = minimax (arrays s ! boardState) depth isMaximizing alpha beta"
proof -
  assume h: "boardState < length (arrays s)" "empties (arrays s ! boardState) < fuel"
  obtain res s' where r:
    "minimax_store fuel s boardState depth isMaximizing alpha beta = Some (res, s')"
    "extends s s'"
    "result_abs s' res = minimax (arrays s ! boardState) depth isMaximizing alpha beta"
    using minimax_store_sim[OF h] by blast
  moreover have "arrays s' ! boardState = arrays s ! boardState"
    using r(2) h(1) by (rule extends_nth)
  ultimately show ?thesis
    by blast
qed

theorem board_not_mutated_witness:
  "0 < length (arrays lateStore) \<and> empties (arrays lateStore ! 0) < 3
   \<and> (\<exists>res s'. minimax_store 3 lateStore 0 2 True NegInf PosInf = Some (res, s')
        \<and> arrays s' ! 0 = lateBoard
        \<and> extends lateStore s'
        \<and> writes s' = [2, 3, 5]
        \<and> result_abs s' res = minimax lateBoard 2 True NegInf PosInf)"
proof -
  have h: "0 < length (arrays lateStore)" "empties (arrays lateStore ! 0) < 3"
    by (simp_all add: lateStore_def lateBoard_def empties_def)
  have b: "arrays lateStore ! 0 = lateBoard"
    by (simp add: lateStore_def)
  obtain res s' where r: "minimax_store 3 lateStore 0 2 True NegInf PosInf = Some (res, s')"
    "arrays s' ! 0 = arrays lateStore ! 0" "extends lateStore s'"
    "result_abs s' res = minimax (arrays lateStore ! 0) 2 True NegInf PosInf"
    using board_not_mutated[OF h, of 2 True NegInf PosInf] by blast
  have "writes s' = [2, 3, 5]"
    using r(1) unfolding lateStore_search by auto
  then show ?thesis
    using h r b by simp
qed

subsection \<open>C10: a move is returned\<close>

text \<open>
  Claim C10. For every board with no completed line and an empty cell, every depth budget
  of at least 1 and all bounds, \<open>minimax\<close> returns a move, and the move is the index of a
  cell that is empty in the board it was given; no move is returned only for a terminal
  board or a depth budget of 0, so never because of pruning.
\<close>

theorem move_defined:
  "(winner (checkWinner boardState) = None \<and> \<not> every_occupied boardState \<and> 1 \<le> depth
      \<longrightarrow> (\<exists>move. r_move (minimax boardState depth isMaximizing alpha beta) = Some move
             \<and> move < length boardState \<and> boardState ! move = None))
   \<and> (r_move (minimax boardState depth isMaximizing alpha beta) = None
      \<longrightarrow> winner (checkWinner boardState) \<noteq> None \<or> every_occupied boardState \<or> depth = 0)"
proof -
  have inner: "\<exists>move. r_move (minimax boardState depth isMaximizing alpha beta) = Some move
             \<and> move < length boardState \<and> boardState ! move = None"
    if "winner (checkWinner boardState) = None" "\<not> every_occupied boardState" "depth \<noteq> 0"
  proof -
    have "chosen (set (getAvailableMoves boardState))
        (r_score (minimax boardState depth isMaximizing alpha beta))
        (r_move (minimax boardState depth isMaximizing alpha beta))"
      using that by (intro minimax_interior minimax_score_finite) simp_all
    then show ?thesis
      by (auto simp: chosen_def getAvailableMoves_set)
  qed
  show ?thesis
    using inner by fastforce
qed

theorem move_defined_witness:
  "(winner (checkWinner fixture) = None \<and> \<not> every_occupied fixture \<and> (1 :: int) \<le> 5)
   \<and> r_move (minimax fixture 5 False NegInf PosInf) = Some 2
   \<and> 2 < length fixture \<and> fixture ! 2 = None"
proof -
  have h: "winner (checkWinner fixture) = None \<and> \<not> every_occupied fixture \<and> (1 :: int) \<le> 5"
    by (simp add: fixture_def checkWinner_def lines_def cell_def every_occupied_def)
  have "r_move (minimax fixture 5 False NegInf PosInf) = Some 2"
    using fixture_search by (simp add: score_move_def)
  moreover have "2 < length fixture \<and> fixture ! 2 = None"
    by (simp add: fixture_def)
  ultimately show ?thesis
    using move_defined[of fixture 5 False NegInf PosInf] h by simp
qed

end
